theory Spec2Isabelle
  imports Complex_Main "HOL-Library.AList" "HOL-Library.Sublist"
begin

section \<open>JavaScript numbers\<close>

text \<open>
  Every number of the program is a JavaScript \<^verbatim>\<open>number\<close>, an IEEE double. The model
  keeps the three non-finite values apart from the finite ones. The operators \<open>+\<close>, \<open>-\<close> and
  \<open>*\<close> below compute on finite values with exact real arithmetic; the sign of zero is not
  modelled. Rounding to double precision is a function of its own, \<open>fl\<close>, applied where it
  decides the control flow: in the two loops of \<open>constrainParameter\<close>, where a rounded
  subtraction can give back the same number. \<^verbatim>\<open>undefined\<close> in arithmetic position coerces
  to \<open>NaN\<close>, so an absent numeric field is read as \<open>NaN\<close> wherever the source only computes
  with it.
\<close>

datatype jsnum = Fin real | PInf | NInf | NaN

instantiation jsnum :: "{plus, minus, uminus, times, abs, ord}"
begin

fun plus_jsnum :: "jsnum \<Rightarrow> jsnum \<Rightarrow> jsnum" where
  "plus_jsnum NaN y = NaN"
| "plus_jsnum x NaN = NaN"
| "plus_jsnum (Fin a) (Fin b) = Fin (a + b)"
| "plus_jsnum PInf NInf = NaN"
| "plus_jsnum NInf PInf = NaN"
| "plus_jsnum PInf y = PInf"
| "plus_jsnum x PInf = PInf"
| "plus_jsnum NInf y = NInf"
| "plus_jsnum x NInf = NInf"

fun uminus_jsnum :: "jsnum \<Rightarrow> jsnum" where
  "uminus_jsnum (Fin a) = Fin (- a)"
| "uminus_jsnum PInf = NInf"
| "uminus_jsnum NInf = PInf"
| "uminus_jsnum NaN = NaN"

definition minus_jsnum :: "jsnum \<Rightarrow> jsnum \<Rightarrow> jsnum" where
  "minus_jsnum x y = x + (- y)"

fun js_sign :: "jsnum \<Rightarrow> real" where
  "js_sign (Fin a) = sgn a"
| "js_sign PInf = 1"
| "js_sign NInf = - 1"
| "js_sign NaN = 0"

fun times_jsnum :: "jsnum \<Rightarrow> jsnum \<Rightarrow> jsnum" where
  "times_jsnum NaN y = NaN"
| "times_jsnum x NaN = NaN"
| "times_jsnum (Fin a) (Fin b) = Fin (a * b)"
| "times_jsnum x y =
     (if js_sign x * js_sign y = 0 then NaN
      else if 0 < js_sign x * js_sign y then PInf else NInf)"

fun abs_jsnum :: "jsnum \<Rightarrow> jsnum" where
  "abs_jsnum (Fin a) = Fin \<bar>a\<bar>"
| "abs_jsnum PInf = PInf"
| "abs_jsnum NInf = PInf"
| "abs_jsnum NaN = NaN"

text \<open>The comparisons \<^verbatim>\<open><\<close> and \<^verbatim>\<open><=\<close>: false as soon as one side is \<open>NaN\<close>.
  The source's \<^verbatim>\<open>a > b\<close> is written \<open>b < a\<close>.\<close>

fun less_jsnum :: "jsnum \<Rightarrow> jsnum \<Rightarrow> bool" where
  "less_jsnum NaN y = False"
| "less_jsnum x NaN = False"
| "less_jsnum (Fin a) (Fin b) = (a < b)"
| "less_jsnum x NInf = False"
| "less_jsnum PInf y = False"
| "less_jsnum NInf y = True"
| "less_jsnum x PInf = True"

fun less_eq_jsnum :: "jsnum \<Rightarrow> jsnum \<Rightarrow> bool" where
  "less_eq_jsnum NaN y = False"
| "less_eq_jsnum x NaN = False"
| "less_eq_jsnum (Fin a) (Fin b) = (a \<le> b)"
| "less_eq_jsnum NInf y = True"
| "less_eq_jsnum x PInf = True"
| "less_eq_jsnum x NInf = False"
| "less_eq_jsnum PInf y = False"

instance ..

end

text \<open>\<^verbatim>\<open>Math.max\<close> and \<^verbatim>\<open>Math.min\<close> of two arguments: \<open>NaN\<close> if either is.\<close>

definition Math_max :: "jsnum \<Rightarrow> jsnum \<Rightarrow> jsnum" where
  "Math_max x y = (if x = NaN \<or> y = NaN then NaN else if x < y then y else x)"

definition Math_min :: "jsnum \<Rightarrow> jsnum \<Rightarrow> jsnum" where
  "Math_min x y = (if x = NaN \<or> y = NaN then NaN else if y < x then y else x)"

text \<open>Truthiness of a number, as \<^verbatim>\<open>||\<close> and \<^verbatim>\<open>if\<close> test it: zero and
  \<open>NaN\<close> are falsy.\<close>

definition truthy :: "jsnum \<Rightarrow> bool" where
  "truthy x = (x \<noteq> Fin 0 \<and> x \<noteq> NaN)"

definition isFinite :: "jsnum \<Rightarrow> bool" where
  "isFinite x = (case x of Fin _ \<Rightarrow> True | _ \<Rightarrow> False)"

subsection \<open>Rounding to double precision\<close>

text \<open>Round to nearest, ties to even, on the grid of the binary64 format: 53 significant bits,
  the smallest spacing \<open>2 powr - 1074\<close>, overflow from \<open>2 ^ 1024\<close> on.\<close>

definition round_even :: "real \<Rightarrow> int" where
  "round_even m =
     (let f = \<lfloor>m\<rfloor>
      in if m - of_int f < 1 / 2 then f
         else if 1 / 2 < m - of_int f then f + 1
         else if even f then f else f + 1)"

definition quantum :: "real \<Rightarrow> real" where
  "quantum x = 2 powr of_int (max (\<lfloor>log 2 \<bar>x\<bar>\<rfloor> - 52) (- 1074))"

definition round_double :: "real \<Rightarrow> jsnum" where
  "round_double x =
     (if x = 0 then Fin 0
      else let y = of_int (round_even (x / quantum x)) * quantum x
           in if 2 ^ 1024 \<le> \<bar>y\<bar> then (if 0 < x then PInf else NInf) else Fin y)"

fun fl :: "jsnum \<Rightarrow> jsnum" where
  "fl (Fin a) = round_double a"
| "fl x = x"

section \<open>JavaScript objects\<close>

text \<open>An object literal is an association list in insertion order, which is the order
  \<^verbatim>\<open>Object.keys\<close> enumerates. A property read \<^verbatim>\<open>obj[k]\<close> finds an own property, or
  else one of the properties every object inherits from \<^verbatim>\<open>Object.prototype\<close>, or else is
  \<^verbatim>\<open>undefined\<close>. The inherited values are functions (an object for \<^verbatim>\<open>__proto__\<close>): they
  are truthy, every property the program reads from them is \<^verbatim>\<open>undefined\<close>, and as numbers
  they are \<open>NaN\<close>.\<close>

definition object_prototype_keys :: "string list" where
  "object_prototype_keys =
     [''constructor'', ''__defineGetter__'', ''__defineSetter__'', ''hasOwnProperty'',
      ''__lookupGetter__'', ''__lookupSetter__'', ''isPrototypeOf'', ''propertyIsEnumerable'',
      ''toString'', ''valueOf'', ''__proto__'', ''toLocaleString'']"

datatype 'a js_prop = Own 'a | Inherited | Undefined

definition js_get :: "(string \<times> 'a) list \<Rightarrow> string \<Rightarrow> 'a js_prop" where
  "js_get obj k =
     (case map_of obj k of
        Some v \<Rightarrow> Own v
      | None \<Rightarrow> if k \<in> set object_prototype_keys then Inherited else Undefined)"

section \<open>UnifiedReactivitySystem: constraints\<close>

text \<open>The local table of \<^verbatim>\<open>constrainParameter\<close>. An entry without \<^verbatim>\<open>wrap\<close>
  has it \<^verbatim>\<open>undefined\<close>, which the test \<^verbatim>\<open>if (constraint.wrap)\<close> reads as false.\<close>

record constraint =
  min_c :: jsnum
  max_c :: jsnum
  wrap_c :: bool

definition constraints :: "(string \<times> constraint) list" where
  "constraints =
     [(''geometry'',    \<lparr>min_c = Fin 0,    max_c = Fin 9,   wrap_c = False\<rparr>),
      (''gridDensity'', \<lparr>min_c = Fin 1,    max_c = Fin 64,  wrap_c = False\<rparr>),
      (''morphFactor'', \<lparr>min_c = Fin 0,    max_c = Fin 2,   wrap_c = False\<rparr>),
      (''chaos'',       \<lparr>min_c = Fin 0,    max_c = Fin 1,   wrap_c = False\<rparr>),
      (''speed'',       \<lparr>min_c = Fin 0.1,  max_c = Fin 3,   wrap_c = False\<rparr>),
      (''scale'',       \<lparr>min_c = Fin 0.25, max_c = Fin 3,   wrap_c = False\<rparr>),
      (''hue'',         \<lparr>min_c = Fin 0,    max_c = Fin 360, wrap_c = True\<rparr>),
      (''intensity'',   \<lparr>min_c = Fin 0,    max_c = Fin 2,   wrap_c = False\<rparr>),
      (''saturation'',  \<lparr>min_c = Fin 0,    max_c = Fin 1,   wrap_c = False\<rparr>)]"

text \<open>The two \<^verbatim>\<open>while\<close> loops of the wrap branch. Neither has a bound on its number of
  iterations, so each is a partial function: \<open>None\<close> is a loop that never exits. Every
  arithmetic result in them is rounded to a double, as the program's is.\<close>

partial_function (option) wrap_below :: "constraint \<Rightarrow> jsnum \<Rightarrow> jsnum option" where
  "wrap_below c v =
     (if v < min_c c then wrap_below c (fl (v + fl (max_c c - min_c c))) else Some v)"

partial_function (option) wrap_above :: "constraint \<Rightarrow> jsnum \<Rightarrow> jsnum option" where
  "wrap_above c v =
     (if max_c c < v then wrap_above c (fl (v - fl (max_c c - min_c c))) else Some v)"

declare wrap_below.simps [code]
declare wrap_above.simps [code]

text \<open>For a name that finds an inherited property, \<^verbatim>\<open>wrap\<close>, \<^verbatim>\<open>min\<close> and
  \<^verbatim>\<open>max\<close> are all \<^verbatim>\<open>undefined\<close>: the clamp branch runs with \<open>NaN\<close> bounds.\<close>

definition constrainParameter :: "string \<Rightarrow> jsnum \<Rightarrow> jsnum option" where
  "constrainParameter param v =
     (case js_get constraints param of
        Undefined \<Rightarrow> Some v
      | Inherited \<Rightarrow> Some (Math_max NaN (Math_min NaN v))
      | Own c \<Rightarrow>
          if wrap_c c then Option.bind (wrap_below c v) (wrap_above c)
          else Some (Math_max (min_c c) (Math_min (max_c c) v)))"


section \<open>UnifiedReactivitySystem: state\<close>

record param =
  value_p :: jsnum
  base :: jsnum
  reactive :: jsnum
  smoothed :: jsnum

record relationship =
  positive :: "string list"
  negative :: "string list"
  multipliers :: "(string \<times> jsnum) list"

record cycle =
  period :: jsnum
  amplitude :: jsnum
  params :: "string list"

record breathing =
  enabled :: bool
  cycles :: "(string \<times> cycle) list"

record smoothing =
  rotations :: jsnum
  core :: jsnum
  color :: jsnum
  advanced :: jsnum

text \<open>The input sources and the callback are external objects; the state records only
  whether a callback is registered. What the sources return in a frame is an argument of
  \<open>processReactivity\<close> below.\<close>

record urs =
  isActive :: bool
  parameters :: "(string \<times> param) list"
  relationships :: "(string \<times> relationship) list"
  breathingPatterns :: breathing
  smoothingFactors :: smoothing
  updateCallback :: bool
  lastUpdateTime :: jsnum

definition mk_param :: "real \<Rightarrow> param" where
  "mk_param b = \<lparr>value_p = Fin b, base = Fin b, reactive = Fin 0, smoothed = Fin b\<rparr>"

definition mk_rel :: "string list \<Rightarrow> string list \<Rightarrow> (string \<times> real) list \<Rightarrow> relationship" where
  "mk_rel pos neg ms = \<lparr>positive = pos, negative = neg, multipliers = map (\<lambda>(k, m). (k, Fin m)) ms\<rparr>"

text \<open>The constructor. \<open>t0\<close> is the reading of \<^verbatim>\<open>Date.now()\<close>.\<close>

definition initial_parameters :: "(string \<times> param) list" where
  "initial_parameters =
     [(''rot4dXW'', mk_param 0), (''rot4dYW'', mk_param 0), (''rot4dZW'', mk_param 0),
      (''rot4dXY'', mk_param 0), (''rot4dXZ'', mk_param 0), (''rot4dYZ'', mk_param 0),
      (''geometry'', mk_param 0), (''gridDensity'', mk_param 15), (''morphFactor'', mk_param 0.5),
      (''chaos'', mk_param 0.2), (''speed'', mk_param 1.0), (''scale'', mk_param 1.0),
      (''hue'', mk_param 200), (''intensity'', mk_param 0.9), (''saturation'', mk_param 0.6)]"

definition initial_relationships :: "(string \<times> relationship) list" where
  "initial_relationships =
     [(''audioBass'', mk_rel [''rot4dXW'', ''rot4dYW'', ''scale'', ''intensity'']
         [''gridDensity'', ''saturation'', ''speed'']
         [(''rot4dXW'', 2.0), (''rot4dYW'', 1.5), (''scale'', 0.5), (''intensity'', 0.3),
          (''gridDensity'', - 0.3), (''saturation'', - 0.2), (''speed'', - 0.2)]),
      (''audioMid'', mk_rel [''morphFactor'', ''chaos'', ''rot4dZW'', ''rot4dXY'']
         [''gridDensity'']
         [(''morphFactor'', 1.0), (''chaos'', 0.8), (''rot4dZW'', 1.2), (''rot4dXY'', 1.0),
          (''gridDensity'', - 0.2)]),
      (''audioHigh'', mk_rel [''hue'', ''rot4dXZ'', ''rot4dYZ'', ''speed'']
         [''scale'', ''morphFactor'']
         [(''hue'', 50), (''rot4dXZ'', 0.8), (''rot4dYZ'', 0.8), (''speed'', 0.4),
          (''scale'', - 0.2), (''morphFactor'', - 0.3)]),
      (''touchVelocity'', mk_rel [''chaos'', ''intensity'', ''speed'']
         [''saturation'', ''gridDensity'']
         [(''chaos'', 0.6), (''intensity'', 0.4), (''speed'', 0.3), (''saturation'', - 0.3),
          (''gridDensity'', - 0.4)]),
      (''gyroscopeTilt'', mk_rel [''morphFactor'', ''hue'', ''scale'']
         [''speed'', ''chaos'']
         [(''morphFactor'', 0.8), (''hue'', 30), (''scale'', 0.3), (''speed'', - 0.2),
          (''chaos'', - 0.2)]),
      (''pinchGesture'', mk_rel [''scale'', ''gridDensity'', ''intensity'']
         [''chaos'', ''speed'']
         [(''scale'', 1.0), (''gridDensity'', 0.5), (''intensity'', 0.3), (''chaos'', - 0.4),
          (''speed'', - 0.3)]),
      (''beatDetected'', mk_rel [''intensity'', ''chaos'', ''speed'', ''scale'']
         [''saturation'']
         [(''intensity'', 0.8), (''chaos'', 0.6), (''speed'', 0.5), (''scale'', 0.4),
          (''saturation'', - 0.2)]),
      (''harmonicResonance'', mk_rel [''hue'', ''saturation'', ''intensity'']
         [''chaos'']
         [(''hue'', 20), (''saturation'', 0.3), (''intensity'', 0.2), (''chaos'', - 0.3)])]"

definition initial_breathing :: breathing where
  "initial_breathing =
     \<lparr>enabled = True,
      cycles =
        [(''slow'',   \<lparr>period = Fin 8000, amplitude = Fin 0.1,  params = [''intensity'', ''saturation'']\<rparr>),
         (''medium'', \<lparr>period = Fin 4000, amplitude = Fin 0.05, params = [''morphFactor'', ''scale'']\<rparr>),
         (''fast'',   \<lparr>period = Fin 2000, amplitude = Fin 0.03, params = [''hue'', ''chaos'']\<rparr>)]\<rparr>"

definition initial_smoothing :: smoothing where
  "initial_smoothing =
     \<lparr>rotations = Fin 0.15, core = Fin 0.08, color = Fin 0.12, advanced = Fin 0.10\<rparr>"

definition constructor :: "jsnum \<Rightarrow> urs" where
  "constructor t0 =
     \<lparr>isActive = False,
      parameters = initial_parameters,
      relationships = initial_relationships,
      breathingPatterns = initial_breathing,
      smoothingFactors = initial_smoothing,
      updateCallback = False,
      lastUpdateTime = t0\<rparr>"

section \<open>UnifiedReactivitySystem: applying a relationship\<close>

text \<open>The only exception the class can raise inside a frame: a property read on
  \<^verbatim>\<open>undefined\<close>.\<close>

datatype error = TypeError

definition seq :: "error + 'a \<Rightarrow> ('a \<Rightarrow> error + 'b) \<Rightarrow> error + 'b" where
  "seq r f = (case r of Inl e \<Rightarrow> Inl e | Inr x \<Rightarrow> f x)"

text \<open>\<^verbatim>\<open>this.parameters[k].reactive += d\<close>: throws when the read of \<open>k\<close> is
  \<^verbatim>\<open>undefined\<close>. When it finds an inherited function the assignment writes a property of
  that function and the table stays as it is.\<close>

definition addReactive :: "(string \<times> param) list \<Rightarrow> string \<Rightarrow> jsnum \<Rightarrow> error + (string \<times> param) list" where
  "addReactive ps k d =
     (case js_get ps k of
        Undefined \<Rightarrow> Inl TypeError
      | Inherited \<Rightarrow> Inr ps
      | Own _ \<Rightarrow> Inr (AList.map_entry k (\<lambda>p. p\<lparr>reactive := reactive p + d\<rparr>) ps))"

text \<open>\<^verbatim>\<open>relationship.multipliers[param] || 1.0\<close> and
  \<^verbatim>\<open>Math.abs(relationship.multipliers[param]) || 1.0\<close>. \<^verbatim>\<open>Math.abs\<close> of
  \<^verbatim>\<open>undefined\<close> or of a function is \<open>NaN\<close>; an inherited function is truthy and
  multiplies as \<open>NaN\<close>.\<close>

definition positiveMultiplier :: "relationship \<Rightarrow> string \<Rightarrow> jsnum" where
  "positiveMultiplier r k =
     (case js_get (multipliers r) k of
        Undefined \<Rightarrow> Fin 1.0
      | Inherited \<Rightarrow> NaN
      | Own m \<Rightarrow> if truthy m then m else Fin 1.0)"

definition negativeMultiplier :: "relationship \<Rightarrow> string \<Rightarrow> jsnum" where
  "negativeMultiplier r k =
     (let a = (case js_get (multipliers r) k of Undefined \<Rightarrow> NaN | Inherited \<Rightarrow> NaN | Own m \<Rightarrow> \<bar>m\<bar>)
      in if truthy a then a else Fin 1.0)"

fun applyPositive :: "relationship \<Rightarrow> jsnum \<Rightarrow> string list \<Rightarrow> (string \<times> param) list \<Rightarrow> error + (string \<times> param) list" where
  "applyPositive r i [] ps = Inr ps"
| "applyPositive r i (k # ks) ps =
     seq (addReactive ps k (i * positiveMultiplier r k)) (applyPositive r i ks)"

fun applyNegative :: "relationship \<Rightarrow> jsnum \<Rightarrow> string list \<Rightarrow> (string \<times> param) list \<Rightarrow> error + (string \<times> param) list" where
  "applyNegative r i [] ps = Inr ps"
| "applyNegative r i (k # ks) ps =
     seq (addReactive ps k (- (i * negativeMultiplier r k))) (applyNegative r i ks)"

text \<open>The guard \<^verbatim>\<open>if (!relationship) return\<close> lets an inherited function through; its
  \<^verbatim>\<open>positive\<close> is \<^verbatim>\<open>undefined\<close> and the call of \<^verbatim>\<open>forEach\<close> on it throws.\<close>

definition applyRelationship :: "urs \<Rightarrow> string \<Rightarrow> jsnum \<Rightarrow> error + urs" where
  "applyRelationship s relationshipName intensity =
     (case js_get (relationships s) relationshipName of
        Undefined \<Rightarrow> Inr s
      | Inherited \<Rightarrow> Inl TypeError
      | Own r \<Rightarrow>
          seq (applyPositive r intensity (positive r) (parameters s)) (\<lambda>ps1.
          seq (applyNegative r intensity (negative r) ps1) (\<lambda>ps2.
          Inr (s\<lparr>parameters := ps2\<rparr>))))"

section \<open>UnifiedReactivitySystem: combining, constraining, smoothing\<close>

text \<open>\<^verbatim>\<open>applyParameterRelationships\<close> visits the parameters in key order; a visit that
  never leaves \<open>constrainParameter\<close> leaves the whole pass without a result.\<close>

fun constrainAll :: "(string \<times> param) list \<Rightarrow> (string \<times> param) list option" where
  "constrainAll [] = Some []"
| "constrainAll ((k, p) # ps) =
     Option.bind (constrainParameter k (base p + reactive p)) (\<lambda>v.
     Option.bind (constrainAll ps) (\<lambda>ps'.
     Some ((k, p\<lparr>value_p := v\<rparr>) # ps')))"

definition applyParameterRelationships :: "urs \<Rightarrow> urs option" where
  "applyParameterRelationships s =
     map_option (\<lambda>ps. s\<lparr>parameters := ps\<rparr>) (constrainAll (parameters s))"

definition smoothingFactor :: "smoothing \<Rightarrow> string \<Rightarrow> jsnum" where
  "smoothingFactor f k =
     (if prefix ''rot4d'' k then rotations f
      else if k \<in> set [''hue'', ''intensity'', ''saturation''] then color f
      else if k \<in> set [''geometry'', ''gridDensity'', ''morphFactor'', ''chaos'', ''speed'', ''scale'']
        then core f
      else advanced f)"

definition smoothParameters :: "urs \<Rightarrow> urs" where
  "smoothParameters s =
     s\<lparr>parameters :=
         map (\<lambda>(k, p). (k, p\<lparr>smoothed :=
                smoothed p + (value_p p - smoothed p) * smoothingFactor (smoothingFactors s) k\<rparr>))
           (parameters s)\<rparr>"


section \<open>UnifiedReactivitySystem: one frame\<close>

text \<open>\<^verbatim>\<open>Math.sqrt\<close>, \<^verbatim>\<open>Math.sin\<close>, \<^verbatim>\<open>Math.PI\<close>, \<^verbatim>\<open>/\<close> and \<^verbatim>\<open>%\<close>.
  The remainder takes the sign of the dividend: the quotient is truncated towards zero.\<close>

fun Math_sqrt :: "jsnum \<Rightarrow> jsnum" where
  "Math_sqrt (Fin a) = (if a < 0 then NaN else Fin (sqrt a))"
| "Math_sqrt PInf = PInf"
| "Math_sqrt NInf = NaN"
| "Math_sqrt NaN = NaN"

fun Math_sin :: "jsnum \<Rightarrow> jsnum" where
  "Math_sin (Fin a) = Fin (sin a)"
| "Math_sin x = NaN"

definition Math_PI :: jsnum where
  "Math_PI = Fin pi"

fun js_div :: "jsnum \<Rightarrow> jsnum \<Rightarrow> jsnum" where
  "js_div NaN y = NaN"
| "js_div x NaN = NaN"
| "js_div (Fin a) (Fin b) =
     (if b \<noteq> 0 then Fin (a / b) else if a = 0 then NaN else if 0 < a then PInf else NInf)"
| "js_div (Fin a) y = Fin 0"
| "js_div x (Fin b) = (if 0 \<le> b then x else - x)"
| "js_div x y = NaN"

definition trunc :: "real \<Rightarrow> int" where
  "trunc x = (if 0 \<le> x then \<lfloor>x\<rfloor> else \<lceil>x\<rceil>)"

fun js_mod :: "jsnum \<Rightarrow> jsnum \<Rightarrow> jsnum" where
  "js_mod (Fin a) (Fin b) = (if b = 0 then NaN else Fin (a - b * of_int (trunc (a / b))))"
| "js_mod (Fin a) PInf = Fin a"
| "js_mod (Fin a) NInf = Fin a"
| "js_mod x y = NaN"

text \<open>What the three input sources hand over in one frame. \<open>None\<close> stands for a source
  that is not connected or returns nothing; a missing numeric field is \<open>NaN\<close>, a missing
  \<^verbatim>\<open>rotations\<close>, \<^verbatim>\<open>touchVelocity\<close> or \<^verbatim>\<open>gyroState\<close> object is \<open>None\<close>.\<close>

record audioLevels =
  bass :: jsnum
  mid :: jsnum
  high :: jsnum
  beatDetected :: bool
  harmonicResonance :: jsnum
  rotations_audio :: "(string \<times> jsnum) list option"

record touchControlState =
  touchVelocity :: "(jsnum \<times> jsnum) option"
  pinchActive :: bool
  rotations_touch :: "(string \<times> jsnum) list option"

record gyroControlState =
  gyroState :: "(jsnum \<times> jsnum) option"
  rotations_gyro :: "(string \<times> jsnum) list option"

record frame =
  audio :: "audioLevels option"
  touch :: "touchControlState option"
  gyroscope :: "gyroControlState option"
  currentTime :: jsnum

text \<open>\<^verbatim>\<open>if (this.parameters[k]) this.parameters[k].reactive += d\<close>.\<close>

definition addReactiveIfPresent :: "(string \<times> param) list \<Rightarrow> string \<Rightarrow> jsnum \<Rightarrow> (string \<times> param) list" where
  "addReactiveIfPresent ps k d =
     (case js_get ps k of
        Undefined \<Rightarrow> ps
      | Inherited \<Rightarrow> ps
      | Own _ \<Rightarrow> AList.map_entry k (\<lambda>p. p\<lparr>reactive := reactive p + d\<rparr>) ps)"

fun copyRotations :: "(string \<times> param) list \<Rightarrow> (string \<times> jsnum) list \<Rightarrow> (string \<times> param) list" where
  "copyRotations ps [] = ps"
| "copyRotations ps ((axis, d) # rs) = copyRotations (addReactiveIfPresent ps axis d) rs"

definition copyRotationsOpt :: "urs \<Rightarrow> (string \<times> jsnum) list option \<Rightarrow> urs" where
  "copyRotationsOpt s rs =
     (case rs of None \<Rightarrow> s | Some r \<Rightarrow> s\<lparr>parameters := copyRotations (parameters s) r\<rparr>)"

definition or0 :: "jsnum \<Rightarrow> jsnum" where
  "or0 x = (if truthy x then x else Fin 0)"

definition processAudioReactivity :: "urs \<Rightarrow> audioLevels option \<Rightarrow> error + urs" where
  "processAudioReactivity s levels =
     (case levels of
        None \<Rightarrow> Inr s
      | Some a \<Rightarrow>
          seq (applyRelationship s ''audioBass'' (bass a)) (\<lambda>s1.
          seq (applyRelationship s1 ''audioMid'' (mid a)) (\<lambda>s2.
          seq (applyRelationship s2 ''audioHigh'' (high a)) (\<lambda>s3.
          seq (if beatDetected a then applyRelationship s3 ''beatDetected'' (Fin 1.0) else Inr s3) (\<lambda>s4.
          seq (if truthy (harmonicResonance a)
               then applyRelationship s4 ''harmonicResonance'' (harmonicResonance a) else Inr s4) (\<lambda>s5.
          Inr (copyRotationsOpt s5 (rotations_audio a))))))))"

definition processTouchReactivity :: "urs \<Rightarrow> touchControlState option \<Rightarrow> error + urs" where
  "processTouchReactivity s state =
     (case state of
        None \<Rightarrow> Inr s
      | Some c \<Rightarrow>
          let (x, y) = (case touchVelocity c of None \<Rightarrow> (NaN, NaN) | Some v \<Rightarrow> v);
              velocity = Math_sqrt (or0 (x * x + y * y)) * Fin 0.01
          in seq (applyRelationship s ''touchVelocity'' velocity) (\<lambda>s1.
             seq (if pinchActive c then applyRelationship s1 ''pinchGesture'' (Fin 1.0) else Inr s1) (\<lambda>s2.
             Inr (copyRotationsOpt s2 (rotations_touch c)))))"

definition processGyroscopeReactivity :: "urs \<Rightarrow> gyroControlState option \<Rightarrow> error + urs" where
  "processGyroscopeReactivity s state =
     (case state of
        None \<Rightarrow> Inr s
      | Some c \<Rightarrow>
          let (deltaBeta, deltaGamma) = (case gyroState c of None \<Rightarrow> (NaN, NaN) | Some g \<Rightarrow> g);
              gyroTilt = Math_sqrt (or0 (deltaBeta * deltaBeta) + or0 (deltaGamma * deltaGamma)) * Fin 0.1
          in seq (applyRelationship s ''gyroscopeTilt'' gyroTilt) (\<lambda>s1.
             Inr (copyRotationsOpt s1 (rotations_gyro c))))"

fun breatheParams :: "jsnum \<Rightarrow> string list \<Rightarrow> (string \<times> param) list \<Rightarrow> (string \<times> param) list" where
  "breatheParams oscillation [] ps = ps"
| "breatheParams oscillation (k # ks) ps = breatheParams oscillation ks (addReactiveIfPresent ps k oscillation)"

definition oscillation :: "jsnum \<Rightarrow> cycle \<Rightarrow> jsnum" where
  "oscillation t c =
     (let phase = js_div (js_mod t (period c)) (period c) * Fin 2 * Math_PI
      in Math_sin phase * amplitude c)"

fun breatheCycles :: "jsnum \<Rightarrow> (string \<times> cycle) list \<Rightarrow> (string \<times> param) list \<Rightarrow> (string \<times> param) list" where
  "breatheCycles t [] ps = ps"
| "breatheCycles t ((name, c) # cs) ps = breatheCycles t cs (breatheParams (oscillation t c) (params c) ps)"

definition applyBreathingPatterns :: "urs \<Rightarrow> jsnum \<Rightarrow> urs" where
  "applyBreathingPatterns s t =
     (if \<not> enabled (breathingPatterns s) then s
      else s\<lparr>parameters := breatheCycles t (cycles (breathingPatterns s)) (parameters s)\<rparr>)"

definition resetReactive :: "(string \<times> param) list \<Rightarrow> (string \<times> param) list" where
  "resetReactive ps = map (\<lambda>(k, p). (k, p\<lparr>reactive := Fin 0\<rparr>)) ps"

text \<open>The first half of the body of \<^verbatim>\<open>processReactivity\<close>: the reset of the accumulators,
  the three sources and the breathing patterns. \<open>Inl\<close> is a frame aborted by an exception.\<close>

definition accumulateReactive :: "urs \<Rightarrow> frame \<Rightarrow> error + urs" where
  "accumulateReactive s fr =
     seq (processAudioReactivity (s\<lparr>parameters := resetReactive (parameters s)\<rparr>) (audio fr)) (\<lambda>s1.
     seq (processTouchReactivity s1 (touch fr)) (\<lambda>s2.
     seq (processGyroscopeReactivity s2 (gyroscope fr)) (\<lambda>s3.
     Inr (applyBreathingPatterns s3 (currentTime fr)))))"

definition finalParameters :: "urs \<Rightarrow> (string \<times> jsnum) list" where
  "finalParameters s = map (\<lambda>(k, p). (k, smoothed p)) (parameters s)"

text \<open>One call of \<^verbatim>\<open>processReactivity\<close>. The result is \<open>None\<close> when the call never
  returns, \<open>Some (Inl e)\<close> when it throws, and otherwise the new state with the snapshot
  handed to the callback, if one is registered. The call re-schedules itself, so a run of the
  system is a sequence of such calls.\<close>

definition processReactivity :: "urs \<Rightarrow> frame \<Rightarrow> (error + urs \<times> (string \<times> jsnum) list option) option" where
  "processReactivity s fr =
     (if \<not> isActive s then Some (Inr (s, None))
      else case accumulateReactive s fr of
        Inl e \<Rightarrow> Some (Inl e)
      | Inr s1 \<Rightarrow>
          (case applyParameterRelationships s1 of
             None \<Rightarrow> None
           | Some s2 \<Rightarrow>
               let s3 = smoothParameters s2
               in Some (Inr (s3\<lparr>lastUpdateTime := currentTime fr\<rparr>,
                             if updateCallback s3 then Some (finalParameters s3) else None))))"

section \<open>UnifiedReactivitySystem: configuration calls\<close>

definition start :: "urs \<Rightarrow> urs" where
  "start s = s\<lparr>isActive := True, updateCallback := True\<rparr>"

definition stop :: "urs \<Rightarrow> urs" where
  "stop s = s\<lparr>isActive := False, updateCallback := False\<rparr>"

definition setBaseParameter :: "urs \<Rightarrow> string \<Rightarrow> jsnum \<Rightarrow> urs" where
  "setBaseParameter s k v =
     (case js_get (parameters s) k of
        Undefined \<Rightarrow> s
      | Inherited \<Rightarrow> s
      | Own _ \<Rightarrow> s\<lparr>parameters := AList.map_entry k (\<lambda>p. p\<lparr>base := v\<rparr>) (parameters s)\<rparr>)"

fun object_assign :: "(string \<times> jsnum) list \<Rightarrow> (string \<times> jsnum) list \<Rightarrow> (string \<times> jsnum) list" where
  "object_assign target [] = target"
| "object_assign target ((k, v) # src) = object_assign (AList.update k v target) src"

text \<open>For an inherited name \<^verbatim>\<open>Object.assign\<close> throws on its \<^verbatim>\<open>undefined\<close> target
  before anything is written: the state is the one before the call.\<close>

definition configureRelationship :: "urs \<Rightarrow> string \<Rightarrow> (string \<times> jsnum) list \<Rightarrow> urs" where
  "configureRelationship s relationshipName ms =
     (case js_get (relationships s) relationshipName of
        Undefined \<Rightarrow> s
      | Inherited \<Rightarrow> s
      | Own _ \<Rightarrow>
          s\<lparr>relationships :=
              AList.map_entry relationshipName
                (\<lambda>r. r\<lparr>multipliers := object_assign (multipliers r) ms\<rparr>) (relationships s)\<rparr>)"

definition setBreathingEnabled :: "urs \<Rightarrow> bool \<Rightarrow> urs" where
  "setBreathingEnabled s b = s\<lparr>breathingPatterns := (breathingPatterns s)\<lparr>enabled := b\<rparr>\<rparr>"

definition reactive_at :: "urs \<Rightarrow> string \<Rightarrow> jsnum option" where
  "reactive_at s k = map_option reactive (map_of (parameters s) k)"

text \<open>The states the system can be in when hue is only ever given finite numbers: its base is
  set to finite values, and in every frame the contributions accumulated for it are finite.\<close>

inductive reachable :: "urs \<Rightarrow> bool" where
  r_new: "reachable (constructor t0)"
| r_start: "reachable s \<Longrightarrow> reachable (start s)"
| r_stop: "reachable s \<Longrightarrow> reachable (stop s)"
| r_base: "reachable s \<Longrightarrow> (k = ''hue'' \<longrightarrow> isFinite v) \<Longrightarrow> reachable (setBaseParameter s k v)"
| r_configure: "reachable s \<Longrightarrow> reachable (configureRelationship s name ms)"
| r_breathing: "reachable s \<Longrightarrow> reachable (setBreathingEnabled s b)"
| r_frame: "reachable s \<Longrightarrow> accumulateReactive s fr = Inr s1 \<Longrightarrow>
            reactive_at s1 ''hue'' = Some (Fin x) \<Longrightarrow>
            processReactivity s fr = Some (Inr (s', out)) \<Longrightarrow> reachable s'"

section \<open>TouchGyroscope6D: momentum after release\<close>

text \<open>Of each entry of \<^verbatim>\<open>rotationEffects\<close> the two numeric fields are kept; the
  descriptive strings play no part in the computation.\<close>

record rotationEffect =
  sensitivity :: jsnum
  dampening :: jsnum

record tg6d =
  isActive_tg :: bool
  rotations_tg :: "(string \<times> jsnum) list"
  rotationEffects :: "(string \<times> rotationEffect) list"
  updateCallback_tg :: bool

definition initial_rotationEffects :: "(string \<times> rotationEffect) list" where
  "initial_rotationEffects =
     [(''rot4dXW'', \<lparr>sensitivity = Fin 2.0, dampening = Fin 0.95\<rparr>),
      (''rot4dYW'', \<lparr>sensitivity = Fin 1.8, dampening = Fin 0.93\<rparr>),
      (''rot4dZW'', \<lparr>sensitivity = Fin 1.5, dampening = Fin 0.97\<rparr>),
      (''rot4dXY'', \<lparr>sensitivity = Fin 1.2, dampening = Fin 0.98\<rparr>),
      (''rot4dXZ'', \<lparr>sensitivity = Fin 1.0, dampening = Fin 0.96\<rparr>),
      (''rot4dYZ'', \<lparr>sensitivity = Fin 2.5, dampening = Fin 0.90\<rparr>)]"

definition constructor_tg :: tg6d where
  "constructor_tg =
     \<lparr>isActive_tg = False,
      rotations_tg = [(''rot4dXW'', Fin 0), (''rot4dYW'', Fin 0), (''rot4dZW'', Fin 0),
                      (''rot4dXY'', Fin 0), (''rot4dXZ'', Fin 0), (''rot4dYZ'', Fin 0)],
      rotationEffects = initial_rotationEffects,
      updateCallback_tg = False\<rparr>"

text \<open>\<^verbatim>\<open>this.rotations[axis] *= this.rotationEffects[axis].dampening\<close> for every axis; the
  \<^verbatim>\<open>dampening\<close> of an inherited function is \<^verbatim>\<open>undefined\<close>.\<close>

fun dampenAll :: "(string \<times> rotationEffect) list \<Rightarrow> (string \<times> jsnum) list \<Rightarrow> error + (string \<times> jsnum) list" where
  "dampenAll effs [] = Inr []"
| "dampenAll effs ((axis, v) # rs) =
     (case js_get effs axis of
        Undefined \<Rightarrow> Inl TypeError
      | Inherited \<Rightarrow> seq (dampenAll effs rs) (\<lambda>rs'. Inr ((axis, v * NaN) # rs'))
      | Own e \<Rightarrow> seq (dampenAll effs rs) (\<lambda>rs'. Inr ((axis, v * dampening e) # rs')))"

definition totalRotation :: "(string \<times> jsnum) list \<Rightarrow> jsnum" where
  "totalRotation rs = foldl (\<lambda>sum (axis, val). sum + \<bar>val\<bar>) (Fin 0) rs"

text \<open>One run of the closure \<^verbatim>\<open>dampening\<close>: the new state, and whether the closure asked
  for another animation frame.\<close>

definition dampening_frame :: "tg6d \<Rightarrow> error + tg6d \<times> bool" where
  "dampening_frame s =
     seq (dampenAll (rotationEffects s) (rotations_tg s)) (\<lambda>rs.
     Inr (s\<lparr>rotations_tg := rs\<rparr>, Fin 0.001 < totalRotation rs \<and> isActive_tg s))"

text \<open>\<^verbatim>\<open>applyTouchMomentum\<close> runs the closure once and then once per animation frame for
  as long as it re-schedules itself, here with no input event in between. \<open>None\<close> is a
  closure that re-schedules itself forever.\<close>

partial_function (option) applyTouchMomentum :: "tg6d \<Rightarrow> (error + tg6d) option" where
  "applyTouchMomentum s =
     (case dampening_frame s of
        Inl e \<Rightarrow> Some (Inl e)
      | Inr (s', again) \<Rightarrow> if again then applyTouchMomentum s' else Some (Inr s'))"

declare applyTouchMomentum.simps [code]


section \<open>Auxiliary notions for the statements\<close>

text \<open>The only wrap entry of the constraint table.\<close>

abbreviation hue_c :: constraint where
  "hue_c \<equiv> \<lparr>min_c = Fin 0, max_c = Fin 360, wrap_c = True\<rparr>"

text \<open>The number behind a finite value.\<close>

fun fin_val :: "jsnum \<Rightarrow> real" where
  "fin_val (Fin a) = a"
| "fin_val x = 0"

text \<open>Everything of a parameter table except the reactive accumulators.\<close>

definition unreactive :: "(string \<times> param) list \<Rightarrow> (string \<times> jsnum \<times> jsnum \<times> jsnum) list" where
  "unreactive ps = map (\<lambda>(k, p). (k, value_p p, base p, smoothed p)) ps"

text \<open>A step from \<open>s\<close> to \<open>s'\<close> that writes reactive accumulators and nothing else.\<close>

definition only_reactive :: "urs \<Rightarrow> urs \<Rightarrow> bool" where
  "only_reactive s s' =
     (s' = s\<lparr>parameters := parameters s'\<rparr> \<and> unreactive (parameters s') = unreactive (parameters s))"

text \<open>What the proof of the hue property carries from frame to frame: the keys and the smoothing
  factors are those of the constructor, the base of hue is finite and its smoothed value is a
  number from 0 up to, but not including, 360.\<close>

definition hue_invariant :: "urs \<Rightarrow> bool" where
  "hue_invariant s =
     (map fst (parameters s) = map fst initial_parameters
      \<and> smoothingFactors s = initial_smoothing
      \<and> (case map_of (parameters s) ''hue'' of
           None \<Rightarrow> False
         | Some p \<Rightarrow> isFinite (base p) \<and> Fin 0 \<le> smoothed p \<and> smoothed p < Fin 360))"

text \<open>What one application of a relationship does to the accumulator of parameter \<open>k\<close>: one
  addition for every occurrence of \<open>k\<close> in the positive list, then one subtraction for every
  occurrence in the negative list.\<close>

definition relationship_effect :: "relationship \<Rightarrow> jsnum \<Rightarrow> string \<Rightarrow> jsnum \<Rightarrow> jsnum" where
  "relationship_effect r i k x =
     ((\<lambda>y. y + - (i * negativeMultiplier r k)) ^^ count_list (negative r) k)
       (((\<lambda>y. y + i * positiveMultiplier r k) ^^ count_list (positive r) k) x)"

text \<open>The frame of Scenario A: the audio source reports a high band of 1.0 and nothing else,
  the other two sources are not connected.\<close>

definition scenarioA_frame :: frame where
  "scenarioA_frame =
     \<lparr>audio = Some \<lparr>bass = Fin 0, mid = Fin 0, high = Fin 1.0, beatDetected = False,
                    harmonicResonance = NaN, rotations_audio = None\<rparr>,
      touch = None, gyroscope = None, currentTime = Fin 16\<rparr>"

text \<open>A frame in which the audio source reports a high band of \<open>2 * 10 ^ 17\<close>, a finite
  number, and nothing else: the relationship \<^verbatim>\<open>audioHigh\<close> contributes 50 times as much,
  \<open>10 ^ 19\<close>, to hue.\<close>

definition large_frame :: frame where
  "large_frame =
     \<lparr>audio = Some \<lparr>bass = Fin 0, mid = Fin 0, high = Fin (2 * 10 ^ 17), beatDetected = False,
                    harmonicResonance = NaN, rotations_audio = None\<rparr>,
      touch = None, gyroscope = None, currentTime = Fin 16\<rparr>"

text \<open>A frame in which the touch source reports \<open>NaN\<close> for one rotation axis and nothing
  else happens.\<close>

definition nan_frame :: frame where
  "nan_frame =
     \<lparr>audio = None,
      touch = Some \<lparr>touchVelocity = None, pinchActive = False,
                    rotations_touch = Some [(''rot4dXW'', NaN)]\<rparr>,
      gyroscope = None, currentTime = Fin 16\<rparr>"

text \<open>A frame in which no source is connected.\<close>

definition idle_frame :: frame where
  "idle_frame = \<lparr>audio = None, touch = None, gyroscope = None, currentTime = Fin 16\<rparr>"

text \<open>Reading the outcome of a frame: a parameter of the new state, and the entry of the
  snapshot handed to the callback.\<close>

definition frame_result_param ::
    "(error + urs \<times> (string \<times> jsnum) list option) option \<Rightarrow> string \<Rightarrow> param option" where
  "frame_result_param r k =
     (case r of Some (Inr (s', out)) \<Rightarrow> map_of (parameters s') k | _ \<Rightarrow> None)"

definition frame_result_emitted ::
    "(error + urs \<times> (string \<times> jsnum) list option) option \<Rightarrow> string \<Rightarrow> jsnum option" where
  "frame_result_emitted r k =
     (case r of Some (Inr (s', Some snap)) \<Rightarrow> map_of snap k | _ \<Rightarrow> None)"

text \<open>The state after \<open>n\<close> runs of the closure \<^verbatim>\<open>dampening\<close>, whether or not the closure
  would have gone on that long.\<close>

fun iterate_frames :: "nat \<Rightarrow> tg6d \<Rightarrow> error + tg6d" where
  "iterate_frames 0 s = Inr s"
| "iterate_frames (Suc n) s = seq (dampening_frame s) (\<lambda>(s', again). iterate_frames n s')"

text \<open>A released, running controller: every rotation is a finite number and every axis has an
  effect entry whose dampening factor lies strictly between 0 and 1.\<close>

definition released_ok :: "tg6d \<Rightarrow> bool" where
  "released_ok s =
     (isActive_tg s \<and>
      list_all (\<lambda>(axis, v). isFinite v \<and>
          (case map_of (rotationEffects s) axis of
             None \<Rightarrow> False
           | Some e \<Rightarrow> Fin 0 < dampening e \<and> dampening e < Fin 1))
        (rotations_tg s))"

text \<open>The dampening factor of an axis as a real number, the sum of the magnitudes of a rotation
  table as a real number, and the table after one multiplication by the factors; used for states
  that satisfy \<open>released_ok\<close>.\<close>

definition factor_of :: "tg6d \<Rightarrow> string \<Rightarrow> real" where
  "factor_of s axis =
     (case map_of (rotationEffects s) axis of None \<Rightarrow> 0 | Some e \<Rightarrow> fin_val (dampening e))"

definition magnitude :: "(string \<times> jsnum) list \<Rightarrow> real" where
  "magnitude rs = sum_list (map (\<lambda>(axis, v). \<bar>fin_val v\<bar>) rs)"

definition dampened :: "tg6d \<Rightarrow> tg6d" where
  "dampened s =
     s\<lparr>rotations_tg := map (\<lambda>(axis, v). (axis, Fin (fin_val v * factor_of s axis))) (rotations_tg s)\<rparr>"

section \<open>Properties of property lookup and of rounding\<close>

lemma js_get_Own_iff: "js_get obj k = Own v \<longleftrightarrow> map_of obj k = Some v"
  by (auto simp: js_get_def split: option.splits)

lemma js_get_Some: "map_of obj k = Some v \<Longrightarrow> js_get obj k = Own v"
  by (simp add: js_get_def)

lemma js_get_None:
  "map_of obj k = None \<Longrightarrow>
     js_get obj k = (if k \<in> set object_prototype_keys then Inherited else Undefined)"
  by (simp add: js_get_def)

lemma round_even_half: "\<bar>of_int (round_even m) - m\<bar> \<le> 1 / 2"
  unfolding round_even_def Let_def by (auto simp: abs_le_iff)

lemma round_even_le:
  assumes "m \<le> of_int K"
  shows "round_even m \<le> K"
proof (cases "m = of_int K")
  case True
  then show ?thesis by (simp add: round_even_def)
next
  case False
  with assms have "m < of_int K" by simp
  then have "\<lfloor>m\<rfloor> < K" by (simp add: floor_less_iff)
  then show ?thesis unfolding round_even_def Let_def by auto
qed

lemma round_even_ge:
  assumes "of_int K \<le> m"
  shows "K \<le> round_even m"
proof -
  from assms have "K \<le> \<lfloor>m\<rfloor>" by (simp add: le_floor_iff)
  then show ?thesis unfolding round_even_def Let_def by auto
qed

lemma round_even_of_int: "round_even (of_int k) = k"
  by (simp add: round_even_def)

lemma round_even_eq:
  assumes "of_int k - 1 / 2 < m" "m < of_int k + 1 / 2"
  shows "round_even m = k"
proof -
  have "\<lfloor>m\<rfloor> = k \<or> \<lfloor>m\<rfloor> = k - 1"
  proof -
    have a: "of_int (k - 1) \<le> m" and b: "m < of_int (k + 1)" using assms by simp_all
    from a have "k - 1 \<le> \<lfloor>m\<rfloor>" by (simp only: le_floor_iff)
    moreover from b have "\<lfloor>m\<rfloor> < k + 1" by (simp only: floor_less_iff)
    ultimately show ?thesis by linarith
  qed
  then show ?thesis
  proof
    assume f: "\<lfloor>m\<rfloor> = k"
    then have "m - of_int \<lfloor>m\<rfloor> < 1 / 2" using assms by simp
    then show ?thesis unfolding round_even_def Let_def using f by simp
  next
    assume f: "\<lfloor>m\<rfloor> = k - 1"
    then have "1 / 2 < m - of_int \<lfloor>m\<rfloor>" using assms by simp
    then show ?thesis unfolding round_even_def Let_def using f by simp
  qed
qed

lemma quantum_pos: "0 < quantum x"
  by (simp add: quantum_def)

lemma floor_log2_le:
  assumes "x \<noteq> 0" "\<bar>x\<bar> < 2 ^ n"
  shows "\<lfloor>log 2 \<bar>x\<bar>\<rfloor> \<le> int n - 1"
proof -
  from assms have "log 2 \<bar>x\<bar> < log 2 (2 ^ n)" by (subst log_less_cancel_iff) simp_all
  then have "log 2 \<bar>x\<bar> < real n" by simp
  then have "\<lfloor>log 2 \<bar>x\<bar>\<rfloor> < int n" by (simp add: floor_less_iff)
  then show ?thesis by simp
qed

lemma quantum_le:
  assumes "x \<noteq> 0" "\<bar>x\<bar> < 2 ^ n" "52 \<le> n"
  shows "quantum x \<le> 2 ^ (n - 53)"
proof -
  have "max (\<lfloor>log 2 \<bar>x\<bar>\<rfloor> - 52) (- 1074) \<le> int (n - 53)"
    using floor_log2_le[OF assms(1,2)] assms(3) by simp
  then have "quantum x \<le> 2 powr of_int (int (n - 53))"
    unfolding quantum_def by (intro powr_mono) simp_all
  then show ?thesis by (simp add: powr_realpow)
qed

lemma quantum_eq:
  assumes "2 powr of_int e \<le> \<bar>x\<bar>" "\<bar>x\<bar> < 2 powr of_int (e + 1)" "- 1022 \<le> e"
  shows "quantum x = 2 powr of_int (e - 52)"
proof -
  have "0 < \<bar>x\<bar>" using assms(1) by (smt (verit) powr_gt_zero)
  then have "\<lfloor>log 2 \<bar>x\<bar>\<rfloor> = e"
    using assms(1,2) by (subst floor_log_eq_powr_iff) simp_all
  moreover have "max (e - 52) (- 1074) = e - 52" using assms(3) by simp
  ultimately show ?thesis by (simp only: quantum_def)
qed

lemma round_double_eq:
  assumes "x \<noteq> 0" "quantum x = q" "round_even (x / q) = n" "of_int n * q = y" "\<bar>y\<bar> < 2 ^ 1024"
  shows "round_double x = Fin y"
  using assms by (simp add: round_double_def Let_def)

lemma round_double_error:
  assumes "\<bar>x\<bar> < 2 ^ 62"
  shows "\<exists>a. round_double x = Fin a \<and> \<bar>a - x\<bar> \<le> 256"
proof (cases "x = 0")
  case True
  then show ?thesis by (simp add: round_double_def)
next
  case False
  let ?q = "quantum x"
  let ?y = "of_int (round_even (x / ?q)) * ?q"
  have q: "0 < ?q" "?q \<le> 512" using quantum_pos[of x] quantum_le[OF False assms] by simp_all
  have "?y - x = (of_int (round_even (x / ?q)) - x / ?q) * ?q"
    using q(1) by (simp add: field_simps)
  then have "\<bar>?y - x\<bar> = \<bar>of_int (round_even (x / ?q)) - x / ?q\<bar> * ?q"
    using q(1) by (simp only: abs_mult)
  also have "\<dots> \<le> (1 / 2) * ?q"
    using round_even_half[of "x / ?q"] q(1) by (intro mult_right_mono) simp_all
  also have "\<dots> \<le> 256" using q(2) by simp
  finally have err: "\<bar>?y - x\<bar> \<le> 256" .
  then have "\<bar>?y\<bar> \<le> \<bar>x\<bar> + 256" by linarith
  also have "\<dots> < 2 ^ 62 + 2 ^ 62" using assms by simp
  also have "\<dots> \<le> (2::real) ^ 1024" by (simp add: power_increasing[of 63 1024, simplified])
  finally have "\<not> 2 ^ 1024 \<le> \<bar>?y\<bar>" by simp
  with False err show ?thesis by (simp add: round_double_def Let_def)
qed

lemma round_double_nonneg:
  assumes "0 \<le> x"
  shows "round_double x = PInf \<or> (\<exists>a. round_double x = Fin a \<and> 0 \<le> a)"
proof (cases "x = 0")
  case True
  then show ?thesis by (simp add: round_double_def)
next
  case False
  with assms have pos: "0 < x" by simp
  have "of_int 0 \<le> x / quantum x" using pos quantum_pos[of x] by simp
  from round_even_ge[OF this] have "0 \<le> of_int (round_even (x / quantum x)) * quantum x"
    using quantum_pos[of x] by simp
  with pos show ?thesis by (auto simp: round_double_def Let_def)
qed

lemma round_double_nonpos:
  assumes "x \<le> 0"
  shows "round_double x = NInf \<or> (\<exists>a. round_double x = Fin a \<and> a \<le> 0)"
proof (cases "x = 0")
  case True
  then show ?thesis by (simp add: round_double_def)
next
  case False
  with assms have neg: "x < 0" by simp
  have "x / quantum x \<le> of_int 0" using neg quantum_pos[of x] by (simp add: divide_le_0_iff)
  from round_even_le[OF this] have "of_int (round_even (x / quantum x)) * quantum x \<le> 0"
    using quantum_pos[of x] by (simp add: mult_le_0_iff)
  with neg show ?thesis by (auto simp: round_double_def Let_def)
qed

lemma quantum_divides_360:
  assumes "0 < x" "x \<le> 360"
  shows "\<exists>K::int. 360 = of_int K * quantum x"
proof -
  have "\<bar>x\<bar> < 2 ^ 9" using assms by simp
  from floor_log2_le[OF _ this] assms have e: "\<lfloor>log 2 \<bar>x\<bar>\<rfloor> \<le> 8" by simp
  define q where "q = max (\<lfloor>log 2 \<bar>x\<bar>\<rfloor> - 52) (- 1074)"
  have q: "q \<le> - 44" using e by (simp add: q_def)
  have qx: "quantum x = 2 powr of_int q" by (simp add: quantum_def q_def)
  have "2 powr of_int q * 2 ^ nat (- q) = (1::real)"
  proof -
    have "(2::real) ^ nat (- q) = 2 powr of_int (- q)"
      using q by (simp add: powr_realpow[symmetric])
    then show ?thesis by (simp add: powr_add[symmetric])
  qed
  then have "360 = of_int (360 * 2 ^ nat (- q)) * quantum x"
    unfolding qx by (simp add: mult.assoc mult.commute)
  then show ?thesis ..
qed

lemma round_double_le_360:
  assumes "0 \<le> x" "x \<le> 360"
  shows "\<exists>a. round_double x = Fin a \<and> 0 \<le> a \<and> a \<le> 360"
proof (cases "x = 0")
  case True
  then show ?thesis by (simp add: round_double_def)
next
  case False
  with assms have pos: "0 < x" by simp
  let ?q = "quantum x"
  let ?y = "of_int (round_even (x / ?q)) * ?q"
  from quantum_divides_360[OF pos assms(2)] obtain K :: int where K: "360 = of_int K * ?q" ..
  have q: "0 < ?q" by (rule quantum_pos)
  have "x / ?q \<le> of_int K" using assms(2) K q by (simp add: pos_divide_le_eq)
  from round_even_le[OF this] have "?y \<le> of_int K * ?q" using q by simp
  with K have hi: "?y \<le> 360" by simp
  have "of_int 0 \<le> x / ?q" using pos q by simp
  from round_even_ge[OF this] have lo: "0 \<le> ?y" using q by simp
  have "\<not> 2 ^ 1024 \<le> \<bar>?y\<bar>"
  proof -
    have "\<bar>?y\<bar> \<le> 360" using lo hi by simp
    also have "\<dots> < (2::real) ^ 9" by simp
    also have "\<dots> \<le> 2 ^ 1024" by (rule power_increasing) simp_all
    finally show ?thesis by simp
  qed
  with False lo hi show ?thesis by (simp add: round_double_def Let_def)
qed

lemma round_double_of_int:
  assumes "\<bar>k\<bar> < 2 ^ 53"
  shows "round_double (of_int k) = Fin (of_int k)"
proof (cases "k = 0")
  case True
  then show ?thesis by (simp add: round_double_def)
next
  case False
  let ?x = "of_int k :: real"
  have "\<bar>?x\<bar> < 2 ^ 53" using assms by (metis of_int_abs of_int_less_numeral_power_cancel_iff)
  from floor_log2_le[OF _ this] False have e: "\<lfloor>log 2 \<bar>?x\<bar>\<rfloor> \<le> 52" by simp
  define q where "q = max (\<lfloor>log 2 \<bar>?x\<bar>\<rfloor> - 52) (- 1074)"
  have q: "q \<le> 0" using e by (simp add: q_def)
  have qx: "quantum ?x = 2 powr of_int q" by (simp add: quantum_def q_def)
  have inv: "2 powr of_int q * 2 ^ nat (- q) = (1::real)"
  proof -
    have "(2::real) ^ nat (- q) = 2 powr of_int (- q)"
      using q by (simp add: powr_realpow[symmetric])
    then show ?thesis by (simp add: powr_add[symmetric])
  qed
  have "?x / quantum ?x = of_int (k * 2 ^ nat (- q))"
    unfolding qx using inv by (simp add: field_simps)
  then have "round_even (?x / quantum ?x) = k * 2 ^ nat (- q)"
    by (simp only: round_even_of_int)
  then have y: "of_int (round_even (?x / quantum ?x)) * quantum ?x = ?x"
    unfolding qx using inv by (simp add: mult.assoc mult.commute)
  have "\<bar>?x\<bar> < 2 ^ 1024"
  proof -
    have "\<bar>?x\<bar> < 2 ^ 53" by fact
    also have "\<dots> \<le> (2::real) ^ 1024" by (rule power_increasing) simp_all
    finally show ?thesis .
  qed
  with False y show ?thesis by (simp add: round_double_def Let_def)
qed

lemma round_double_360: "round_double 360 = Fin 360"
  using round_double_of_int[of 360] by simp

lemma round_double_big: "round_double (10 ^ 19 - 360) = Fin (10 ^ 19)"
proof (rule round_double_eq)
  show "(10 ^ 19 - 360 :: real) \<noteq> 0" by simp
  show "quantum (10 ^ 19 - 360) = 2048"
    using quantum_eq[of 63 "10 ^ 19 - 360"] by simp
  show "round_even ((10 ^ 19 - 360) / 2048) = 4882812500000000"
    by (rule round_even_eq) simp_all
  show "of_int 4882812500000000 * 2048 = (10 ^ 19 :: real)" by simp
  show "\<bar>10 ^ 19 :: real\<bar> < 2 ^ 1024" by simp
qed

lemma round_double_tiny: "round_double (- (1 / 10 ^ 17) + 360) = Fin 360"
proof (rule round_double_eq)
  show "(- (1 / 10 ^ 17) + 360 :: real) \<noteq> 0" by simp
  show "quantum (- (1 / 10 ^ 17) + 360) = 1 / 2 ^ 44"
    using quantum_eq[of 8 "- (1 / 10 ^ 17) + 360"] by (simp add: powr_minus_divide)
  show "round_even ((- (1 / 10 ^ 17) + 360) / (1 / 2 ^ 44)) = 360 * 2 ^ 44"
    by (rule round_even_eq) simp_all
  show "of_int (360 * 2 ^ 44) * (1 / 2 ^ 44) = (360 :: real)" by simp
  show "\<bar>360 :: real\<bar> < 2 ^ 1024" by simp
qed

section \<open>Properties of the constraint policy\<close>

lemma Fin_minus [simp]: "Fin a - Fin b = Fin (a - b)"
  by (simp add: minus_jsnum_def)

lemma hue_constraint: "map_of constraints ''hue'' = Some hue_c"
  by (simp add: constraints_def)

lemma hue_lookup: "js_get constraints ''hue'' = Own hue_c"
  by (simp add: js_get_def constraints_def)

lemma hue_width: "fl (max_c hue_c - min_c hue_c) = Fin 360"
  by (simp add: round_double_360)

lemma wrap_above_unfold:
  "wrap_above hue_c (Fin a) =
     (if 360 < a then wrap_above hue_c (round_double (a - 360)) else Some (Fin a))"
  by (subst wrap_above.simps) (simp add: round_double_360)

lemma wrap_below_unfold:
  "wrap_below hue_c (Fin a) =
     (if a < 0 then wrap_below hue_c (round_double (a + 360)) else Some (Fin a))"
  by (subst wrap_below.simps) (simp add: round_double_360)

lemma wrap_above_range:
  assumes "wrap_above c v = Some y"
  shows "c = hue_c \<longrightarrow> (v = PInf \<or> (\<exists>a. v = Fin a \<and> 0 \<le> a)) \<longrightarrow> (\<exists>r. y = Fin r \<and> 0 \<le> r \<and> r \<le> 360)"
proof (rule wrap_above.raw_induct
    [where P = "\<lambda>c v y. c = hue_c \<longrightarrow> (v = PInf \<or> (\<exists>a. v = Fin a \<and> 0 \<le> a))
                  \<longrightarrow> (\<exists>r. y = Fin r \<and> 0 \<le> r \<and> r \<le> 360)", OF _ assms])
  fix f :: "constraint \<Rightarrow> jsnum \<Rightarrow> jsnum option" and c v y
  assume IH: "\<And>c v y. f c v = Some y \<Longrightarrow>
                c = hue_c \<longrightarrow> (v = PInf \<or> (\<exists>a. v = Fin a \<and> 0 \<le> a))
                  \<longrightarrow> (\<exists>r. y = Fin r \<and> 0 \<le> r \<and> r \<le> 360)"
    and body: "(if max_c c < v then f c (fl (v - fl (max_c c - min_c c))) else Some v) = Some y"
  show "c = hue_c \<longrightarrow> (v = PInf \<or> (\<exists>a. v = Fin a \<and> 0 \<le> a))
                  \<longrightarrow> (\<exists>r. y = Fin r \<and> 0 \<le> r \<and> r \<le> 360)"
  proof (intro impI)
    assume c: "c = hue_c" and v: "v = PInf \<or> (\<exists>a. v = Fin a \<and> 0 \<le> a)"
    from v show "\<exists>r. y = Fin r \<and> 0 \<le> r \<and> r \<le> 360"
    proof
      assume "v = PInf"
      with body c have "f hue_c PInf = Some y" by (simp add: round_double_360 minus_jsnum_def)
      from IH[OF this] show ?thesis by simp
    next
      assume "\<exists>a. v = Fin a \<and> 0 \<le> a"
      then obtain a where a: "v = Fin a" "0 \<le> a" by blast
      show ?thesis
      proof (cases "360 < a")
        case True
        with body c a have next_: "f hue_c (round_double (a - 360)) = Some y"
          by (simp add: round_double_360)
        from True have "0 \<le> a - 360" by simp
        from round_double_nonneg[OF this] IH[OF next_] show ?thesis by auto
      next
        case False
        with body c a show ?thesis by auto
      qed
    qed
  qed
qed

lemma wrap_below_range:
  assumes "wrap_below c v = Some y"
  shows "c = hue_c \<longrightarrow> (v = NInf \<or> (\<exists>a. v = Fin a))
           \<longrightarrow> (\<exists>r. y = Fin r \<and> 0 \<le> r \<and> (v = Fin r \<or> r \<le> 360))"
proof (rule wrap_below.raw_induct
    [where P = "\<lambda>c v y. c = hue_c \<longrightarrow> (v = NInf \<or> (\<exists>a. v = Fin a))
                  \<longrightarrow> (\<exists>r. y = Fin r \<and> 0 \<le> r \<and> (v = Fin r \<or> r \<le> 360))", OF _ assms])
  fix f :: "constraint \<Rightarrow> jsnum \<Rightarrow> jsnum option" and c v y
  assume IH: "\<And>c v y. f c v = Some y \<Longrightarrow>
                c = hue_c \<longrightarrow> (v = NInf \<or> (\<exists>a. v = Fin a))
                  \<longrightarrow> (\<exists>r. y = Fin r \<and> 0 \<le> r \<and> (v = Fin r \<or> r \<le> 360))"
    and body: "(if v < min_c c then f c (fl (v + fl (max_c c - min_c c))) else Some v) = Some y"
  show "c = hue_c \<longrightarrow> (v = NInf \<or> (\<exists>a. v = Fin a))
                  \<longrightarrow> (\<exists>r. y = Fin r \<and> 0 \<le> r \<and> (v = Fin r \<or> r \<le> 360))"
  proof (intro impI)
    assume c: "c = hue_c" and v: "v = NInf \<or> (\<exists>a. v = Fin a)"
    from v show "\<exists>r. y = Fin r \<and> 0 \<le> r \<and> (v = Fin r \<or> r \<le> 360)"
    proof
      assume "v = NInf"
      with body c have "f hue_c NInf = Some y" by (simp add: round_double_360)
      from IH[OF this] show ?thesis by auto
    next
      assume "\<exists>a. v = Fin a"
      then obtain a where a: "v = Fin a" by blast
      show ?thesis
      proof (cases "a < 0")
        case False
        with body c a show ?thesis by auto
      next
        case True
        with body c a have next_: "f hue_c (round_double (a + 360)) = Some y"
          by (simp add: round_double_360)
        from IH[OF next_] have ih: "round_double (a + 360) = NInf \<or> (\<exists>b. round_double (a + 360) = Fin b)
            \<Longrightarrow> \<exists>r. y = Fin r \<and> 0 \<le> r \<and> (round_double (a + 360) = Fin r \<or> r \<le> 360)"
          by simp
        show ?thesis
        proof (cases "a + 360 < 0")
          case True
          then have "a + 360 \<le> 0" by simp
          from round_double_nonpos[OF this] have
            d: "round_double (a + 360) = NInf \<or> (\<exists>b. round_double (a + 360) = Fin b \<and> b \<le> 0)" .
          then have "round_double (a + 360) = NInf \<or> (\<exists>b. round_double (a + 360) = Fin b)" by blast
          from ih[OF this] obtain r where
            r: "y = Fin r" "0 \<le> r" "round_double (a + 360) = Fin r \<or> r \<le> 360" by blast
          from r(3) d have "r \<le> 360" by auto
          with r(1,2) show ?thesis by blast
        next
          case False
          then have "0 \<le> a + 360" "a + 360 \<le> 360" using True by simp_all
          from round_double_le_360[OF this] obtain b where
            b: "round_double (a + 360) = Fin b" "0 \<le> b" "b \<le> 360" by blast
          then have "round_double (a + 360) = NInf \<or> (\<exists>b. round_double (a + 360) = Fin b)" by blast
          from ih[OF this] obtain r where
            r: "y = Fin r" "0 \<le> r" "round_double (a + 360) = Fin r \<or> r \<le> 360" by blast
          from r(3) b have "r \<le> 360" by auto
          with r(1,2) show ?thesis by blast
        qed
      qed
    qed
  qed
qed

lemma wrap_above_terminates:
  assumes "0 \<le> a" "a \<le> 2 ^ 62"
  shows "\<exists>r. wrap_above hue_c (Fin a) = Some (Fin r)"
  using assms
proof (induction "nat \<lceil>a\<rceil>" arbitrary: a rule: less_induct)
  case less
  show ?case
  proof (cases "360 < a")
    case False
    then show ?thesis by (simp add: wrap_above_unfold)
  next
    case True
    have "\<bar>a - 360\<bar> < 2 ^ 62" using True less.prems by simp
    from round_double_error[OF this] obtain b where
      b: "round_double (a - 360) = Fin b" "\<bar>b - (a - 360)\<bar> \<le> 256" by blast
    from True have "0 \<le> a - 360" by simp
    from round_double_nonneg[OF this] b(1) have b0: "0 \<le> b" by simp
    from b(2) have b1: "b \<le> a - 104" by linarith
    then have "\<lceil>b\<rceil> \<le> \<lceil>a - 104\<rceil>" by (rule ceiling_mono)
    then have "\<lceil>b\<rceil> \<le> \<lceil>a\<rceil> - 104" by simp
    moreover have "0 < \<lceil>a\<rceil>" using True by (simp add: less_ceiling_iff)
    ultimately have "nat \<lceil>b\<rceil> < nat \<lceil>a\<rceil>" by linarith
    moreover have "b \<le> 2 ^ 62" using b1 less.prems(2) by simp
    ultimately obtain r where "wrap_above hue_c (Fin b) = Some (Fin r)"
      using less.hyps[of b] b0 by blast
    with True b(1) show ?thesis by (simp add: wrap_above_unfold)
  qed
qed

lemma wrap_below_terminates:
  assumes "- (2 ^ 62) \<le> a"
  shows "\<exists>r. wrap_below hue_c (Fin a) = Some (Fin r)"
  using assms
proof (induction "nat \<lceil>- a\<rceil>" arbitrary: a rule: less_induct)
  case less
  show ?case
  proof (cases "a < 0")
    case False
    then show ?thesis by (simp add: wrap_below_unfold)
  next
    case True
    have "\<bar>a + 360\<bar> < 2 ^ 62" using True less.prems by (simp add: abs_less_iff)
    from round_double_error[OF this] obtain b where
      b: "round_double (a + 360) = Fin b" "\<bar>b - (a + 360)\<bar> \<le> 256" by blast
    from b(2) have b1: "a + 104 \<le> b" by linarith
    then have "- b \<le> - a - 104" by simp
    then have "\<lceil>- b\<rceil> \<le> \<lceil>- a - 104\<rceil>" by (rule ceiling_mono)
    then have "\<lceil>- b\<rceil> \<le> \<lceil>- a\<rceil> - 104" by simp
    moreover have "0 < \<lceil>- a\<rceil>" using True by (simp add: less_ceiling_iff)
    ultimately have "nat \<lceil>- b\<rceil> < nat \<lceil>- a\<rceil>" by linarith
    moreover have "- (2 ^ 62) \<le> b" using b1 less.prems by simp
    ultimately obtain r where "wrap_below hue_c (Fin b) = Some (Fin r)"
      using less.hyps[of b] by blast
    with True b(1) show ?thesis by (simp add: wrap_below_unfold)
  qed
qed

lemma constrain_hue_eq:
  "constrainParameter ''hue'' v = Option.bind (wrap_below hue_c v) (wrap_above hue_c)"
  by (simp add: constrainParameter_def hue_lookup)

lemma constrain_hue_range:
  assumes "constrainParameter ''hue'' (Fin v) = Some y"
  shows "\<exists>r. y = Fin r \<and> 0 \<le> r \<and> r \<le> 360"
proof -
  from assms obtain y1 where 1: "wrap_below hue_c (Fin v) = Some y1"
    and 2: "wrap_above hue_c y1 = Some y"
    by (auto simp: constrain_hue_eq split: Option.bind_splits)
  from wrap_below_range[OF 1] obtain r1 where "y1 = Fin r1" "0 \<le> r1" by auto
  with wrap_above_range[OF 2] show ?thesis by auto
qed

lemma constrain_hue_returns:
  assumes "\<bar>v\<bar> \<le> 2 ^ 62"
  shows "\<exists>r. constrainParameter ''hue'' (Fin v) = Some (Fin r) \<and> 0 \<le> r \<and> r \<le> 360"
proof -
  from assms have "- (2 ^ 62) \<le> v" by (simp add: abs_le_iff)
  from wrap_below_terminates[OF this] obtain r1 where 1: "wrap_below hue_c (Fin v) = Some (Fin r1)" ..
  from wrap_below_range[OF 1] have r1: "0 \<le> r1" "v = r1 \<or> r1 \<le> 360" by auto
  have "r1 \<le> 2 ^ 62"
  proof -
    from r1(2) show ?thesis
    proof
      assume "v = r1" with assms show ?thesis by (simp add: abs_le_iff)
    next
      assume "r1 \<le> 360"
      also have "(360::real) \<le> 2 ^ 62" by simp
      finally show ?thesis .
    qed
  qed
  from wrap_above_terminates[OF r1(1) this] obtain r where 2: "wrap_above hue_c (Fin r1) = Some (Fin r)" ..
  from 1 2 have run: "constrainParameter ''hue'' (Fin v) = Some (Fin r)" by (simp add: constrain_hue_eq)
  from constrain_hue_range[OF run] run show ?thesis by auto
qed

lemma constrain_hue_in_range:
  assumes "0 \<le> v" "v \<le> 360"
  shows "constrainParameter ''hue'' (Fin v) = Some (Fin v)"
  using assms by (simp add: constrain_hue_eq wrap_below_unfold wrap_above_unfold)

lemma wrap_above_PInf_diverges: "wrap_above hue_c PInf = None"
proof -
  have "\<not> (c = hue_c \<and> v = PInf)" if "wrap_above c v = Some y" for c v y
  proof (rule wrap_above.raw_induct[where P = "\<lambda>c v y. \<not> (c = hue_c \<and> v = PInf)", OF _ that])
    fix f :: "constraint \<Rightarrow> jsnum \<Rightarrow> jsnum option" and c v y
    assume IH: "\<And>c v y. f c v = Some y \<Longrightarrow> \<not> (c = hue_c \<and> v = PInf)"
      and body: "(if max_c c < v then f c (fl (v - fl (max_c c - min_c c))) else Some v) = Some y"
    show "\<not> (c = hue_c \<and> v = PInf)"
    proof
      assume "c = hue_c \<and> v = PInf"
      with body have "f hue_c PInf = Some y" by (simp add: round_double_360 minus_jsnum_def)
      from IH[OF this] show False by simp
    qed
  qed
  then show ?thesis by (cases "wrap_above hue_c PInf") auto
qed

lemma wrap_below_NInf_diverges: "wrap_below hue_c NInf = None"
proof -
  have "\<not> (c = hue_c \<and> v = NInf)" if "wrap_below c v = Some y" for c v y
  proof (rule wrap_below.raw_induct[where P = "\<lambda>c v y. \<not> (c = hue_c \<and> v = NInf)", OF _ that])
    fix f :: "constraint \<Rightarrow> jsnum \<Rightarrow> jsnum option" and c v y
    assume IH: "\<And>c v y. f c v = Some y \<Longrightarrow> \<not> (c = hue_c \<and> v = NInf)"
      and body: "(if v < min_c c then f c (fl (v + fl (max_c c - min_c c))) else Some v) = Some y"
    show "\<not> (c = hue_c \<and> v = NInf)"
    proof
      assume "c = hue_c \<and> v = NInf"
      with body have "f hue_c NInf = Some y" by (simp add: round_double_360)
      from IH[OF this] show False by simp
    qed
  qed
  then show ?thesis by (cases "wrap_below hue_c NInf") auto
qed

lemma wrap_above_large_diverges: "wrap_above hue_c (Fin (10 ^ 19)) = None"
proof -
  have "\<not> (c = hue_c \<and> v = Fin (10 ^ 19))" if "wrap_above c v = Some y" for c v y
  proof (rule wrap_above.raw_induct[where P = "\<lambda>c v y. \<not> (c = hue_c \<and> v = Fin (10 ^ 19))", OF _ that])
    fix f :: "constraint \<Rightarrow> jsnum \<Rightarrow> jsnum option" and c v y
    assume IH: "\<And>c v y. f c v = Some y \<Longrightarrow> \<not> (c = hue_c \<and> v = Fin (10 ^ 19))"
      and body: "(if max_c c < v then f c (fl (v - fl (max_c c - min_c c))) else Some v) = Some y"
    show "\<not> (c = hue_c \<and> v = Fin (10 ^ 19))"
    proof
      assume a: "c = hue_c \<and> v = Fin (10 ^ 19)"
      have "fl (Fin (10 ^ 19) - fl (max_c hue_c - min_c hue_c)) = Fin (10 ^ 19)"
        unfolding hue_width using round_double_big by simp
      with body a have "f hue_c (Fin (10 ^ 19)) = Some y" by simp
      from IH[OF this] show False by simp
    qed
  qed
  then show ?thesis by (cases "wrap_above hue_c (Fin (10 ^ 19))") auto
qed

lemma constrain_hue_large_diverges: "constrainParameter ''hue'' (Fin (10 ^ 19)) = None"
  using wrap_above_large_diverges by (simp add: constrain_hue_eq wrap_below_unfold)

lemma constrain_hue_tiny: "constrainParameter ''hue'' (Fin (- (1 / 10 ^ 17))) = Some (Fin 360)"
  using round_double_tiny by (simp add: constrain_hue_eq wrap_below_unfold wrap_above_unfold)

lemma clamp_fin:
  assumes "lo \<le> hi"
  shows "\<exists>x. Math_max (Fin lo) (Math_min (Fin hi) (Fin v)) = Fin x \<and> lo \<le> x \<and> x \<le> hi
           \<and> (lo \<le> v \<and> v \<le> hi \<longrightarrow> x = v)"
  using assms by (auto simp: Math_max_def Math_min_def)

lemma constraints_wf_js:
  assumes "(param, c) \<in> set constraints"
  shows "isFinite (min_c c) \<and> isFinite (max_c c) \<and> min_c c \<le> max_c c
           \<and> (wrap_c c \<longrightarrow> param = ''hue'' \<and> c = hue_c)"
  using assms unfolding constraints_def by (auto simp: isFinite_def)

lemma constraints_wf:
  assumes "(param, c) \<in> set constraints"
  shows "\<exists>lo hi. min_c c = Fin lo \<and> max_c c = Fin hi \<and> lo \<le> hi
           \<and> (wrap_c c \<longrightarrow> param = ''hue'' \<and> c = hue_c)"
  using constraints_wf_js[OF assms]
  by (cases "min_c c"; cases "max_c c") (simp_all add: isFinite_def)


lemma constrain_hue_PInf: "constrainParameter ''hue'' PInf = None"
proof -
  have "wrap_below hue_c PInf = Some PInf" by (subst wrap_below.simps) simp
  then show ?thesis by (simp add: constrain_hue_eq wrap_above_PInf_diverges)
qed

lemma constrain_hue_NInf: "constrainParameter ''hue'' NInf = None"
  by (simp add: constrain_hue_eq wrap_below_NInf_diverges)

lemma clamp_inf:
  "Math_max (Fin lo) (Math_min (Fin hi) PInf) = Fin (max lo hi)"
  "Math_max (Fin lo) (Math_min (Fin hi) NInf) = Fin lo"
  by (auto simp: Math_max_def Math_min_def)

text \<open>
  Claim C1, as the code has it. For every parameter with an entry in the constraint table and
  every raw value other than NaN (so for every sum of a finite base and a finite reactive value,
  rounded or not): whenever \<open>constrainParameter\<close> returns, the result is a finite value in the
  closed interval from min to max, for the wrap parameter too. It does return for every bounded
  parameter, and for the wrap parameter when the raw value is finite and at most \<open>2 ^ 62\<close> in
  magnitude. A finite raw value that already lies between min and max, max included, is returned
  unchanged: the second loop tests \<^verbatim>\<open>value > max\<close>, so max itself is left alone.
\<close>

theorem constrainParameter_range:
  assumes "map_of constraints param = Some c" and "v \<noteq> NaN"
  shows "\<exists>lo hi. min_c c = Fin lo \<and> max_c c = Fin hi \<and> lo \<le> hi
           \<and> (\<forall>y. constrainParameter param v = Some y \<longrightarrow> (\<exists>x. y = Fin x \<and> lo \<le> x \<and> x \<le> hi))
           \<and> (\<not> wrap_c c \<or> (\<exists>a. v = Fin a \<and> \<bar>a\<bar> \<le> 2 ^ 62)
                \<longrightarrow> (\<exists>y. constrainParameter param v = Some y))
           \<and> (\<forall>a. v = Fin a \<and> lo \<le> a \<and> a \<le> hi \<longrightarrow> constrainParameter param v = Some v)"
proof -
  from assms(1) have mem: "(param, c) \<in> set constraints" by (rule map_of_SomeD)
  from assms(1) have look: "js_get constraints param = Own c" by (rule js_get_Some)
  from constraints_wf[OF mem] obtain lo hi where
    wf: "min_c c = Fin lo" "max_c c = Fin hi" "lo \<le> hi" "wrap_c c \<longrightarrow> param = ''hue'' \<and> c = hue_c"
    by blast
  show ?thesis
  proof (cases "wrap_c c")
    case False
    then have eq: "constrainParameter param v = Some (Math_max (Fin lo) (Math_min (Fin hi) v))"
      by (simp add: constrainParameter_def look wf)
    have range: "\<exists>x. Math_max (Fin lo) (Math_min (Fin hi) v) = Fin x \<and> lo \<le> x \<and> x \<le> hi"
    proof (cases v)
      case (Fin a)
      with clamp_fin[OF wf(3), of a] show ?thesis by blast
    next
      case PInf
      with wf(3) show ?thesis by (simp add: clamp_inf)
    next
      case NInf
      with wf(3) show ?thesis by (simp add: clamp_inf)
    next
      case NaN
      with assms(2) show ?thesis by simp
    qed
    have same: "Math_max (Fin lo) (Math_min (Fin hi) v) = v" if "v = Fin a" "lo \<le> a" "a \<le> hi" for a
      using that clamp_fin[OF wf(3), of a] by auto
    have 1: "\<forall>y. constrainParameter param v = Some y \<longrightarrow> (\<exists>x. y = Fin x \<and> lo \<le> x \<and> x \<le> hi)"
      using eq range by auto
    have 2: "\<exists>y. constrainParameter param v = Some y" using eq by simp
    have 3: "\<forall>a. v = Fin a \<and> lo \<le> a \<and> a \<le> hi \<longrightarrow> constrainParameter param v = Some v"
      using eq same by auto
    from wf(1,2,3) 1 2 3 show ?thesis by blast
  next
    case True
    with wf have hue: "param = ''hue''" "c = hue_c" "lo = 0" "hi = 360" by auto
    have 1: "\<forall>y. constrainParameter param v = Some y \<longrightarrow> (\<exists>x. y = Fin x \<and> lo \<le> x \<and> x \<le> hi)"
    proof (cases v)
      case (Fin a)
      with constrain_hue_range[of a] hue show ?thesis by blast
    next
      case PInf
      with hue show ?thesis by (simp add: constrain_hue_PInf)
    next
      case NInf
      with hue show ?thesis by (simp add: constrain_hue_NInf)
    next
      case NaN
      with assms(2) show ?thesis by simp
    qed
    have 2: "\<exists>y. constrainParameter param v = Some y" if "v = Fin a" "\<bar>a\<bar> \<le> 2 ^ 62" for a
      using constrain_hue_returns[OF that(2)] that(1) hue by auto
    have 3: "\<forall>a. v = Fin a \<and> lo \<le> a \<and> a \<le> hi \<longrightarrow> constrainParameter param v = Some v"
      using constrain_hue_in_range hue by auto
    from wf(1,2,3) 1 2 3 True show ?thesis by blast
  qed
qed

theorem constrainParameter_range_witness:
  "map_of constraints ''hue'' = Some hue_c \<and> Fin 200 + Fin 520 \<noteq> NaN
   \<and> \<bar>200 + 520 :: real\<bar> \<le> 2 ^ 62
   \<and> constrainParameter ''hue'' (Fin 200 + Fin 520) = Some (Fin 360)"
proof -
  have 1: "wrap_below hue_c (Fin 720) = Some (Fin 720)" by (simp add: wrap_below_unfold)
  have 2: "wrap_above hue_c (Fin 360) = Some (Fin 360)" by (simp add: wrap_above_unfold)
  have 3: "wrap_above hue_c (Fin 720) = Some (Fin 360)"
    by (subst wrap_above_unfold) (simp add: round_double_360 2)
  show ?thesis
    using constrainParameter_range[OF hue_constraint, of "Fin 200 + Fin 520"]
    by (simp add: constrain_hue_eq hue_constraint 1 3)
qed

text \<open>The half-open interval of claim C1 fails at the upper end: with base 200 and reactive 160
  the hue value is 360, which is not below max.\<close>

theorem constrainParameter_hue_at_max:
  "map_of constraints ''hue'' = Some \<lparr>min_c = Fin 0, max_c = Fin 360, wrap_c = True\<rparr>
   \<and> constrainParameter ''hue'' (Fin 200 + Fin 160) = Some (Fin 360)
   \<and> \<not> (Fin 360 < max_c \<lparr>min_c = Fin 0, max_c = Fin 360, wrap_c = True\<rparr>)"
proof -
  have 1: "wrap_below hue_c (Fin 360) = Some (Fin 360)" by (simp add: wrap_below_unfold)
  have 2: "wrap_above hue_c (Fin 360) = Some (Fin 360)" by (simp add: wrap_above_unfold)
  show ?thesis by (simp add: constrain_hue_eq hue_constraint 1 2)
qed

section \<open>Properties of relationship application\<close>

lemma map_of_map_entry_at:
  "map_of (AList.map_entry k f ps) k' = (if k' = k then map_option f (map_of ps k) else map_of ps k')"
  by (simp add: map_of_map_entry split: option.splits)

lemma map_of_map_values:
  "map_of (map (\<lambda>(k, p). (k, f k p)) ps) k = map_option (f k) (map_of ps k)"
  by (induction ps) auto

lemma map_fst_map_entry: "map fst (AList.map_entry k f ps) = map fst ps"
  by (induction ps) auto

lemma funpow_add_swap:
  "((\<lambda>x::jsnum. x + d) ^^ n) y + d = ((\<lambda>x. x + d) ^^ n) (y + d)"
  using funpow_swap1[of "\<lambda>x. x + d" n y] by simp

lemma unreactive_map_entry:
  "unreactive (AList.map_entry k (\<lambda>p. p\<lparr>reactive := g p\<rparr>) ps) = unreactive ps"
  by (induction ps) (auto simp: unreactive_def)

lemma unreactive_keys: "unreactive ps' = unreactive ps \<Longrightarrow> map fst ps' = map fst ps"
proof -
  assume "unreactive ps' = unreactive ps"
  then have "map fst (unreactive ps') = map fst (unreactive ps)" by simp
  then show ?thesis by (simp add: unreactive_def case_prod_unfold comp_def)
qed

lemma map_of_unreactive:
  "map_of (unreactive ps) k = map_option (\<lambda>p. (value_p p, base p, smoothed p)) (map_of ps k)"
  unfolding unreactive_def by (rule map_of_map_values)

lemma unreactive_lookup:
  assumes "unreactive ps' = unreactive ps" "map_of ps k = Some p"
  shows "\<exists>p'. map_of ps' k = Some p' \<and> value_p p' = value_p p \<and> base p' = base p \<and> smoothed p' = smoothed p"
proof -
  from assms(1) have "map_of (unreactive ps') k = map_of (unreactive ps) k" by simp
  with assms(2) show ?thesis by (auto simp: map_of_unreactive)
qed

lemma map_entry_absent: "map_of ps k = None \<Longrightarrow> AList.map_entry k f ps = ps"
  by (induction ps) (auto split: if_splits)

lemma addReactive_eq:
  "addReactive ps k d =
     (if k \<in> fst ` set ps \<union> set object_prototype_keys
      then Inr (AList.map_entry k (\<lambda>p. p\<lparr>reactive := reactive p + d\<rparr>) ps)
      else Inl TypeError)"
proof (cases "map_of ps k")
  case None
  then have "k \<notin> fst ` set ps" by (simp add: map_of_eq_None_iff)
  with None show ?thesis by (simp add: addReactive_def js_get_def map_entry_absent)
next
  case (Some p)
  then have "k \<in> fst ` set ps" by (auto dest: map_of_SomeD intro: rev_image_eqI)
  with Some show ?thesis by (simp add: addReactive_def js_get_def)
qed

lemma addReactive_Inr:
  assumes "addReactive ps k d = Inr ps'"
  shows "ps' = AList.map_entry k (\<lambda>p. p\<lparr>reactive := reactive p + d\<rparr>) ps"
  using assms unfolding addReactive_eq by (simp split: if_splits)

lemma applyPositive_ok_iff:
  "(\<exists>ps'. applyPositive r i ks ps = Inr ps') \<longleftrightarrow> set ks \<subseteq> fst ` set ps \<union> set object_prototype_keys"
proof (induction ks arbitrary: ps)
  case Nil
  show ?case by simp
next
  case (Cons k ks)
  show ?case
  proof (cases "k \<in> fst ` set ps \<union> set object_prototype_keys")
    case True
    let ?ps1 = "AList.map_entry k (\<lambda>p. p\<lparr>reactive := reactive p + i * positiveMultiplier r k\<rparr>) ps"
    have "applyPositive r i (k # ks) ps = applyPositive r i ks ?ps1"
      using True by (simp add: addReactive_eq seq_def)
    with Cons.IH[of ?ps1] True show ?thesis by (simp add: dom_map_entry)
  next
    case False
    then have "addReactive ps k (i * positiveMultiplier r k) = Inl TypeError"
      by (simp add: addReactive_eq)
    with False show ?thesis by (simp add: seq_def)
  qed
qed

lemma applyNegative_ok_iff:
  "(\<exists>ps'. applyNegative r i ks ps = Inr ps') \<longleftrightarrow> set ks \<subseteq> fst ` set ps \<union> set object_prototype_keys"
proof (induction ks arbitrary: ps)
  case Nil
  show ?case by simp
next
  case (Cons k ks)
  show ?case
  proof (cases "k \<in> fst ` set ps \<union> set object_prototype_keys")
    case True
    let ?ps1 = "AList.map_entry k (\<lambda>p. p\<lparr>reactive := reactive p + - (i * negativeMultiplier r k)\<rparr>) ps"
    have "applyNegative r i (k # ks) ps = applyNegative r i ks ?ps1"
      using True by (simp add: addReactive_eq seq_def)
    with Cons.IH[of ?ps1] True show ?thesis by (simp add: dom_map_entry)
  next
    case False
    then have "addReactive ps k (- (i * negativeMultiplier r k)) = Inl TypeError"
      by (simp add: addReactive_eq)
    with False show ?thesis by (simp add: seq_def)
  qed
qed

lemma applyPositive_effect:
  assumes "applyPositive r i ks ps = Inr ps'"
  shows "unreactive ps' = unreactive ps
     \<and> map_of ps' k = map_option
          (\<lambda>p. p\<lparr>reactive := ((\<lambda>x. x + i * positiveMultiplier r k) ^^ count_list ks k) (reactive p)\<rparr>)
          (map_of ps k)"
  using assms
proof (induction ks arbitrary: ps)
  case Nil
  then show ?case by (simp add: option.map_ident)
next
  case (Cons a ks)
  from Cons.prems obtain ps1 where
    1: "addReactive ps a (i * positiveMultiplier r a) = Inr ps1" and 2: "applyPositive r i ks ps1 = Inr ps'"
    by (auto simp: seq_def split: sum.splits)
  note e = addReactive_Inr[OF 1]
  from Cons.IH[OF 2] have u: "unreactive ps' = unreactive ps1"
    and m: "map_of ps' k = map_option
          (\<lambda>p. p\<lparr>reactive := ((\<lambda>x. x + i * positiveMultiplier r k) ^^ count_list ks k) (reactive p)\<rparr>)
          (map_of ps1 k)" by simp_all
  have "unreactive ps1 = unreactive ps" unfolding e by (rule unreactive_map_entry)
  with u have U: "unreactive ps' = unreactive ps" by simp
  have "map_of ps' k = map_option
          (\<lambda>p. p\<lparr>reactive := ((\<lambda>x. x + i * positiveMultiplier r k) ^^ count_list (a # ks) k) (reactive p)\<rparr>)
          (map_of ps k)"
    unfolding m e map_of_map_entry_at
    by (cases "map_of ps k") (auto simp: funpow_add_swap)
  with U show ?case by simp
qed

lemma applyNegative_effect:
  assumes "applyNegative r i ks ps = Inr ps'"
  shows "unreactive ps' = unreactive ps
     \<and> map_of ps' k = map_option
          (\<lambda>p. p\<lparr>reactive := ((\<lambda>x. x + - (i * negativeMultiplier r k)) ^^ count_list ks k) (reactive p)\<rparr>)
          (map_of ps k)"
  using assms
proof (induction ks arbitrary: ps)
  case Nil
  then show ?case by (simp add: option.map_ident)
next
  case (Cons a ks)
  from Cons.prems obtain ps1 where
    1: "addReactive ps a (- (i * negativeMultiplier r a)) = Inr ps1" and 2: "applyNegative r i ks ps1 = Inr ps'"
    by (auto simp: seq_def split: sum.splits)
  note e = addReactive_Inr[OF 1]
  from Cons.IH[OF 2] have u: "unreactive ps' = unreactive ps1"
    and m: "map_of ps' k = map_option
          (\<lambda>p. p\<lparr>reactive := ((\<lambda>x. x + - (i * negativeMultiplier r k)) ^^ count_list ks k) (reactive p)\<rparr>)
          (map_of ps1 k)" by simp_all
  have "unreactive ps1 = unreactive ps" unfolding e by (rule unreactive_map_entry)
  with u have U: "unreactive ps' = unreactive ps" by simp
  have "map_of ps' k = map_option
          (\<lambda>p. p\<lparr>reactive := ((\<lambda>x. x + - (i * negativeMultiplier r k)) ^^ count_list (a # ks) k) (reactive p)\<rparr>)
          (map_of ps k)"
    unfolding m e map_of_map_entry_at
    by (cases "map_of ps k") (auto simp: funpow_add_swap)
  with U show ?case by simp
qed

lemma applyRelationship_effect:
  assumes "applyRelationship s name i = Inr s'"
  shows "s' = s\<lparr>parameters := parameters s'\<rparr>"
    and "unreactive (parameters s') = unreactive (parameters s)"
    and "map_of (parameters s') k =
           map_option (\<lambda>p. p\<lparr>reactive :=
               (case map_of (relationships s) name of
                  None \<Rightarrow> reactive p
                | Some r \<Rightarrow> relationship_effect r i k (reactive p))\<rparr>)
             (map_of (parameters s) k)"
proof -
  show "s' = s\<lparr>parameters := parameters s'\<rparr>"
    using assms by (auto simp: applyRelationship_def seq_def split: js_prop.splits sum.splits)
  show "unreactive (parameters s') = unreactive (parameters s)"
    using assms
    by (auto simp: applyRelationship_def seq_def split: js_prop.splits sum.splits
             dest!: applyPositive_effect[THEN conjunct1] applyNegative_effect[THEN conjunct1])
  show "map_of (parameters s') k =
           map_option (\<lambda>p. p\<lparr>reactive :=
               (case map_of (relationships s) name of
                  None \<Rightarrow> reactive p
                | Some r \<Rightarrow> relationship_effect r i k (reactive p))\<rparr>)
             (map_of (parameters s) k)"
  proof (cases "map_of (relationships s) name")
    case None
    with assms have "s' = s" by (simp add: applyRelationship_def js_get_def split: if_splits)
    with None show ?thesis by (simp add: option.map_ident)
  next
    case (Some r)
    with assms obtain ps1 where
      1: "applyPositive r i (positive r) (parameters s) = Inr ps1"
      and 2: "applyNegative r i (negative r) ps1 = Inr (parameters s')"
      by (auto simp: applyRelationship_def js_get_def seq_def split: sum.splits)
    from applyPositive_effect[OF 1, of k] applyNegative_effect[OF 2, of k] Some
    show ?thesis
      by (cases "map_of (parameters s) k") (simp_all add: relationship_effect_def)
  qed
qed

lemma applyRelationship_ok_iff:
  "(\<exists>s'. applyRelationship s name i = Inr s') \<longleftrightarrow>
     (case map_of (relationships s) name of
        None \<Rightarrow> name \<notin> set object_prototype_keys
      | Some r \<Rightarrow> set (positive r) \<union> set (negative r)
                    \<subseteq> fst ` set (parameters s) \<union> set object_prototype_keys)"
proof (cases "map_of (relationships s) name")
  case None
  then show ?thesis by (simp add: applyRelationship_def js_get_def)
next
  case (Some r)
  show ?thesis
  proof (cases "set (positive r) \<subseteq> fst ` set (parameters s) \<union> set object_prototype_keys")
    case True
    with applyPositive_ok_iff[of r i "positive r" "parameters s"] obtain ps1 where
      1: "applyPositive r i (positive r) (parameters s) = Inr ps1" by blast
    from applyPositive_effect[OF 1, THEN conjunct1] have "map fst ps1 = map fst (parameters s)"
      by (rule unreactive_keys)
    then have keys: "fst ` set ps1 = fst ` set (parameters s)" by (metis set_map)
    have "(\<exists>s'. applyRelationship s name i = Inr s') \<longleftrightarrow> (\<exists>ps2. applyNegative r i (negative r) ps1 = Inr ps2)"
      using Some 1 by (auto simp: applyRelationship_def js_get_def seq_def split: sum.splits)
    with applyNegative_ok_iff[of r i "negative r" ps1] keys True Some show ?thesis by simp
  next
    case False
    with applyPositive_ok_iff[of r i "positive r" "parameters s"]
    have "\<nexists>ps1. applyPositive r i (positive r) (parameters s) = Inr ps1" by blast
    then have "\<nexists>s'. applyRelationship s name i = Inr s'"
      using Some by (auto simp: applyRelationship_def js_get_def seq_def split: sum.splits)
    with False Some show ?thesis by auto
  qed
qed

lemma funpow_add_Fin: "((\<lambda>y. y + Fin d) ^^ n) (Fin x) = Fin (x + real n * d)"
  by (induction n) (simp_all add: algebra_simps)

lemma relationship_effect_Fin:
  assumes "positiveMultiplier r k = Fin pm" "negativeMultiplier r k = Fin nm"
  shows "relationship_effect r (Fin i) k (Fin x) =
           Fin (x + (real (count_list (positive r) k) * (i * pm) - real (count_list (negative r) k) * (i * nm)))"
  using assms by (simp add: relationship_effect_def funpow_add_Fin algebra_simps)

lemma plus_Fin_cases:
  assumes "v + d = Fin y"
  shows "\<exists>a b. v = Fin a \<and> d = Fin b \<and> y = a + b"
  using assms by (cases v; cases d) simp_all

lemma funpow_add_finite_start:
  assumes "((\<lambda>y::jsnum. y + d) ^^ n) v = Fin y"
  shows "\<exists>a. v = Fin a"
  using assms
proof (induction n arbitrary: y)
  case 0
  then show ?case by simp
next
  case (Suc n)
  then have "((\<lambda>y. y + d) ^^ n) v + d = Fin y" by simp
  from plus_Fin_cases[OF this] obtain a where "((\<lambda>y. y + d) ^^ n) v = Fin a" by blast
  from Suc.IH[OF this] show ?case .
qed

lemma funpow_add_shift:
  assumes "((\<lambda>y::jsnum. y + d) ^^ n) (Fin x) = Fin y"
  shows "((\<lambda>y. y + d) ^^ n) (Fin z) = Fin (z + (y - x))"
proof (cases n)
  case 0
  with assms show ?thesis by simp
next
  case (Suc m)
  with assms have "((\<lambda>y. y + d) ^^ m) (Fin x) + d = Fin y" by simp
  from plus_Fin_cases[OF this] obtain b where d: "d = Fin b" by blast
  from assms have "y = x + real n * b" by (simp add: d funpow_add_Fin)
  then show ?thesis by (simp add: d funpow_add_Fin)
qed

lemma relationship_effect_shift:
  assumes "relationship_effect r i k (Fin x) = Fin y"
  shows "relationship_effect r i k (Fin z) = Fin (z + (y - x))"
proof -
  let ?P = "(\<lambda>y. y + i * positiveMultiplier r k) ^^ count_list (positive r) k"
  let ?N = "(\<lambda>y. y + - (i * negativeMultiplier r k)) ^^ count_list (negative r) k"
  from assms have 1: "?N (?P (Fin x)) = Fin y" by (simp add: relationship_effect_def)
  from funpow_add_finite_start[OF 1] obtain w where w: "?P (Fin x) = Fin w" by blast
  from funpow_add_shift[OF w, of z] have 2: "?P (Fin z) = Fin (z + (w - x))" .
  from 1 w have "?N (Fin w) = Fin y" by simp
  from funpow_add_shift[OF this, of "z + (w - x)"] have "?N (?P (Fin z)) = Fin (z + (w - x) + (y - w))"
    by (simp add: 2)
  then show ?thesis by (simp add: relationship_effect_def)
qed

lemma same_but_parameters:
  assumes "s' = s\<lparr>parameters := ps\<rparr>"
  shows "relationships s' = relationships s" "smoothingFactors s' = smoothingFactors s"
    "breathingPatterns s' = breathingPatterns s" "isActive s' = isActive s"
    "updateCallback s' = updateCallback s" "lastUpdateTime s' = lastUpdateTime s"
  using assms by simp_all

lemma reactive_at_applyRelationship:
  assumes "applyRelationship s name i = Inr s'" "reactive_at s k = Some x"
  shows "reactive_at s' k =
           Some (case map_of (relationships s) name of None \<Rightarrow> x | Some r \<Rightarrow> relationship_effect r i k x)"
  using applyRelationship_effect(3)[OF assms(1), of k] assms(2)
  by (auto simp: reactive_at_def split: option.splits)

lemma applyRelationship_again:
  assumes "applyRelationship s a ia = Inr sA" "applyRelationship s b ib = Inr sB"
  shows "\<exists>sAB. applyRelationship sA b ib = Inr sAB"
proof -
  have keys: "fst ` set (parameters sA) = fst ` set (parameters s)"
    using unreactive_keys[OF applyRelationship_effect(2)[OF assms(1)]] by (metis set_map)
  have rel: "relationships sA = relationships s"
    by (rule same_but_parameters(1)[OF applyRelationship_effect(1)[OF assms(1)]])
  from assms(2) have "\<exists>s'. applyRelationship s b ib = Inr s'" by blast
  then show ?thesis unfolding applyRelationship_ok_iff keys rel .
qed

lemmas constructor_defs = constructor_def initial_parameters_def initial_relationships_def
  initial_breathing_def initial_smoothing_def mk_param_def mk_rel_def

text \<open>
  Claim C3. Take a state in which the accumulator of parameter \<open>k\<close> holds the number \<open>x\<close>.
  If applying relationship \<open>a\<close> alone succeeds and leaves \<open>x + dA\<close> there, and applying
  \<open>b\<close> alone succeeds and leaves \<open>x + dB\<close>, then applying both, in either order, succeeds
  and leaves \<open>x + (dA + dB)\<close>. The intensities are arbitrary; finite numbers are exact reals.
\<close>

theorem applyRelationship_additive:
  assumes A: "applyRelationship s a ia = Inr sA"
      and B: "applyRelationship s b ib = Inr sB"
      and before: "reactive_at s k = Some (Fin x)"
      and dA: "reactive_at sA k = Some (Fin (x + dA))"
      and dB: "reactive_at sB k = Some (Fin (x + dB))"
  shows "\<exists>sAB sBA. applyRelationship sA b ib = Inr sAB \<and> applyRelationship sB a ia = Inr sBA
           \<and> reactive_at sAB k = Some (Fin (x + (dA + dB)))
           \<and> reactive_at sBA k = Some (Fin (x + (dA + dB)))"
proof -
  from applyRelationship_again[OF A B] obtain sAB where AB: "applyRelationship sA b ib = Inr sAB" ..
  from applyRelationship_again[OF B A] obtain sBA where BA: "applyRelationship sB a ia = Inr sBA" ..
  have relA: "relationships sA = relationships s"
    by (rule same_but_parameters(1)[OF applyRelationship_effect(1)[OF A]])
  have relB: "relationships sB = relationships s"
    by (rule same_but_parameters(1)[OF applyRelationship_effect(1)[OF B]])
  define EA where "EA v = (case map_of (relationships s) a of None \<Rightarrow> v | Some r \<Rightarrow> relationship_effect r ia k v)" for v
  define EB where "EB v = (case map_of (relationships s) b of None \<Rightarrow> v | Some r \<Rightarrow> relationship_effect r ib k v)" for v
  have EAx: "EA (Fin x) = Fin (x + dA)"
    using reactive_at_applyRelationship[OF A before] dA by (simp add: EA_def)
  have EBx: "EB (Fin x) = Fin (x + dB)"
    using reactive_at_applyRelationship[OF B before] dB by (simp add: EB_def)
  have shiftA: "EA (Fin z) = Fin (z + dA)" for z
    using EAx relationship_effect_shift[of _ ia k x "x + dA" z]
    by (auto simp: EA_def split: option.splits)
  have shiftB: "EB (Fin z) = Fin (z + dB)" for z
    using EBx relationship_effect_shift[of _ ib k x "x + dB" z]
    by (auto simp: EB_def split: option.splits)
  have "reactive_at sAB k = Some (EB (Fin (x + dA)))"
    using reactive_at_applyRelationship[OF AB dA] by (simp add: relA EB_def)
  then have 1: "reactive_at sAB k = Some (Fin (x + (dA + dB)))" by (simp add: shiftB add.assoc)
  have "reactive_at sBA k = Some (EA (Fin (x + dB)))"
    using reactive_at_applyRelationship[OF BA dB] by (simp add: relB EA_def)
  then have 2: "reactive_at sBA k = Some (Fin (x + (dA + dB)))" by (simp add: shiftA algebra_simps)
  from AB BA 1 2 show ?thesis by blast
qed

theorem applyRelationship_additive_witness:
  "\<exists>sA sB sAB sBA.
      applyRelationship (constructor (Fin 0)) ''pinchGesture'' (Fin 1.0) = Inr sA
    \<and> applyRelationship (constructor (Fin 0)) ''touchVelocity'' (Fin 0.5) = Inr sB
    \<and> reactive_at (constructor (Fin 0)) ''gridDensity'' = Some (Fin 0)
    \<and> reactive_at sA ''gridDensity'' = Some (Fin (0 + 0.5))
    \<and> reactive_at sB ''gridDensity'' = Some (Fin (0 + - 0.2))
    \<and> applyRelationship sA ''touchVelocity'' (Fin 0.5) = Inr sAB
    \<and> applyRelationship sB ''pinchGesture'' (Fin 1.0) = Inr sBA
    \<and> reactive_at sAB ''gridDensity'' = Some (Fin (0 + (0.5 + - 0.2)))
    \<and> reactive_at sBA ''gridDensity'' = Some (Fin (0 + (0.5 + - 0.2)))"
proof -
  let ?S = "constructor (Fin 0)"
  have "\<exists>sA. applyRelationship ?S ''pinchGesture'' (Fin 1.0) = Inr sA"
    unfolding applyRelationship_ok_iff by (simp add: constructor_defs)
  then obtain sA where A: "applyRelationship ?S ''pinchGesture'' (Fin 1.0) = Inr sA" ..
  have "\<exists>sB. applyRelationship ?S ''touchVelocity'' (Fin 0.5) = Inr sB"
    unfolding applyRelationship_ok_iff by (simp add: constructor_defs)
  then obtain sB where B: "applyRelationship ?S ''touchVelocity'' (Fin 0.5) = Inr sB" ..
  have before: "reactive_at ?S ''gridDensity'' = Some (Fin 0)"
    by (simp add: reactive_at_def constructor_defs)
  have dA: "reactive_at sA ''gridDensity'' = Some (Fin (0 + 0.5))"
    unfolding reactive_at_applyRelationship[OF A before]
    by (simp add: constructor_defs relationship_effect_def positiveMultiplier_def negativeMultiplier_def
        js_get_def truthy_def)
  have dB: "reactive_at sB ''gridDensity'' = Some (Fin (0 + - 0.2))"
    unfolding reactive_at_applyRelationship[OF B before]
    by (simp add: constructor_defs relationship_effect_def positiveMultiplier_def negativeMultiplier_def
        js_get_def truthy_def)
  from applyRelationship_additive[OF A B before dA dB] A B before dA dB show ?thesis by blast
qed

lemma applyRelationship_undefined:
  assumes "js_get (relationships s) relationshipName = Undefined"
  shows "applyRelationship s relationshipName intensity = Inr s"
  using assms by (simp add: applyRelationship_def)

text \<open>
  Claim C10 at a failing input. The relationship table made by the constructor has no entry
  \<^verbatim>\<open>toString\<close>, yet \<^verbatim>\<open>applyRelationship('toString', intensity)\<close> is not a silent
  no-op: the read \<^verbatim>\<open>this.relationships['toString']\<close> finds the function inherited from
  \<^verbatim>\<open>Object.prototype\<close>, the guard \<^verbatim>\<open>if (!relationship) return\<close> lets it through, and
  \<^verbatim>\<open>relationship.positive.forEach\<close> throws a \<^verbatim>\<open>TypeError\<close>, whatever the intensity. (For
  a name that is found neither in the table nor on the prototype the call does return the state
  unchanged, see \<open>applyRelationship_undefined\<close>.)
\<close>

theorem applyRelationship_inherited_throws:
  "map_of (relationships (constructor t0)) ''toString'' = None
   \<and> applyRelationship (constructor t0) ''toString'' intensity = Inl TypeError"
  by (simp add: applyRelationship_def js_get_def object_prototype_keys_def constructor_defs)

text \<open>
  Claim C6 at a failing input. After \<^verbatim>\<open>configureRelationship('audioHigh', {hue: 0})\<close> the
  multiplier of hue is specified and is 0, yet \<^verbatim>\<open>applyRelationship('audioHigh', 1.0)\<close> adds
  1 to the accumulator of hue, not 0: \<^verbatim>\<open>0 || 1.0\<close> is \<^verbatim>\<open>1.0\<close>.
\<close>

theorem zero_multiplier_replaced:
  "map_sum id (\<lambda>s. reactive_at s ''hue'')
     (applyRelationship (configureRelationship (constructor (Fin 0)) ''audioHigh'' [(''hue'', Fin 0)])
        ''audioHigh'' (Fin 1.0))
   = Inr (Some (Fin 1))"
proof -
  let ?S = "configureRelationship (constructor (Fin 0)) ''audioHigh'' [(''hue'', Fin 0)]"
  have rel: "map_of (relationships ?S) ''audioHigh'' =
      Some \<lparr>positive = [''hue'', ''rot4dXZ'', ''rot4dYZ'', ''speed''], negative = [''scale'', ''morphFactor''],
            multipliers = [(''hue'', Fin 0), (''rot4dXZ'', Fin 0.8), (''rot4dYZ'', Fin 0.8), (''speed'', Fin 0.4),
                           (''scale'', Fin (- 0.2)), (''morphFactor'', Fin (- 0.3))]\<rparr>"
    by (simp add: configureRelationship_def js_get_def constructor_defs)
  have par: "parameters ?S = initial_parameters"
    by (simp add: configureRelationship_def js_get_def constructor_def initial_relationships_def mk_rel_def)
  have "\<exists>s'. applyRelationship ?S ''audioHigh'' (Fin 1.0) = Inr s'"
    unfolding applyRelationship_ok_iff rel par by (simp add: initial_parameters_def)
  then obtain s' where A: "applyRelationship ?S ''audioHigh'' (Fin 1.0) = Inr s'" ..
  have before: "reactive_at ?S ''hue'' = Some (Fin 0)"
    by (simp add: reactive_at_def par initial_parameters_def mk_param_def)
  have "reactive_at s' ''hue'' = Some (Fin 1)"
    unfolding reactive_at_applyRelationship[OF A before] rel
    by (simp add: relationship_effect_def positiveMultiplier_def negativeMultiplier_def js_get_def truthy_def)
  with A show ?thesis by simp
qed

section \<open>Properties of the smoother\<close>

text \<open>The ordering of claim C5 fails: the rotation factor is not the smallest of the four, and the
  colour factor is not above it.\<close>

theorem smoothing_rotation_not_slowest:
  "\<not> (rotations initial_smoothing \<le> core initial_smoothing)
   \<and> \<not> (rotations initial_smoothing < color initial_smoothing)"
  by (simp add: initial_smoothing_def)

text \<open>
  Claim C5, as the code has it. \<open>smoothParameters\<close> replaces the smoothed field of every
  parameter by smoothed + (value - smoothed) * factor, where the factor depends on the category of
  the parameter only: 0.15 for the rotations, 0.12 for the colour parameters, 0.08 for the core
  parameters and 0.10 for any other. The rotation factor is the largest of the four and the core
  factor the smallest.
\<close>

theorem smoothParameters_formula:
  "map_of (parameters (smoothParameters s)) k =
     map_option (\<lambda>p. p\<lparr>smoothed := smoothed p + (value_p p - smoothed p) * smoothingFactor (smoothingFactors s) k\<rparr>)
       (map_of (parameters s) k)
   \<and> smoothingFactors (constructor t0) = initial_smoothing
   \<and> smoothingFactor initial_smoothing k =
       (if prefix ''rot4d'' k then Fin 0.15
        else if k \<in> {''hue'', ''intensity'', ''saturation''} then Fin 0.12
        else if k \<in> {''geometry'', ''gridDensity'', ''morphFactor'', ''chaos'', ''speed'', ''scale''} then Fin 0.08
        else Fin 0.10)
   \<and> Fin 0.08 < Fin 0.10 \<and> Fin 0.10 < Fin 0.12 \<and> Fin 0.12 < Fin 0.15"
proof -
  have 1: "map_of (parameters (smoothParameters s)) k =
     map_option (\<lambda>p. p\<lparr>smoothed := smoothed p + (value_p p - smoothed p) * smoothingFactor (smoothingFactors s) k\<rparr>)
       (map_of (parameters s) k)"
    unfolding smoothParameters_def by (simp add: map_of_map_values)
  have 2: "smoothingFactors (constructor t0) = initial_smoothing" by (simp add: constructor_def)
  have 3: "smoothingFactor initial_smoothing k =
       (if prefix ''rot4d'' k then Fin 0.15
        else if k \<in> {''hue'', ''intensity'', ''saturation''} then Fin 0.12
        else if k \<in> {''geometry'', ''gridDensity'', ''morphFactor'', ''chaos'', ''speed'', ''scale''} then Fin 0.08
        else Fin 0.10)"
    by (simp add: smoothingFactor_def initial_smoothing_def)
  from 1 2 3 show ?thesis by simp
qed




section \<open>Properties of a frame\<close>

subsection \<open>The accumulation phase writes accumulators only\<close>

lemma only_reactive_refl: "only_reactive s s"
  by (simp add: only_reactive_def)

lemma only_reactive_trans [trans]:
  assumes "only_reactive s s1" "only_reactive s1 s2"
  shows "only_reactive s s2"
proof -
  from assms have a: "s1 = s\<lparr>parameters := parameters s1\<rparr>" and b: "s2 = s1\<lparr>parameters := parameters s2\<rparr>"
    by (simp_all add: only_reactive_def)
  have "s1\<lparr>parameters := parameters s2\<rparr> = s\<lparr>parameters := parameters s2\<rparr>"
    by (subst a) simp
  with b have "s2 = s\<lparr>parameters := parameters s2\<rparr>" by simp
  with assms show ?thesis by (simp add: only_reactive_def)
qed

lemma only_reactive_parameters:
  assumes "unreactive ps = unreactive (parameters s)"
  shows "only_reactive s (s\<lparr>parameters := ps\<rparr>)"
  using assms by (simp add: only_reactive_def)

lemma applyRelationship_only_reactive:
  assumes "applyRelationship s name i = Inr s'"
  shows "only_reactive s s'"
  using applyRelationship_effect(1,2)[OF assms] by (simp add: only_reactive_def)

lemma unreactive_addReactiveIfPresent:
  "unreactive (addReactiveIfPresent ps k d) = unreactive ps"
  by (simp add: addReactiveIfPresent_def unreactive_map_entry split: js_prop.splits)

lemma unreactive_copyRotations: "unreactive (copyRotations ps rs) = unreactive ps"
  by (induction ps rs rule: copyRotations.induct) (simp_all add: unreactive_addReactiveIfPresent)

lemma unreactive_breatheParams: "unreactive (breatheParams d ks ps) = unreactive ps"
  by (induction ks arbitrary: ps) (simp_all add: unreactive_addReactiveIfPresent)

lemma unreactive_breatheCycles: "unreactive (breatheCycles t cs ps) = unreactive ps"
  by (induction t cs ps rule: breatheCycles.induct) (simp_all add: unreactive_breatheParams)

lemma unreactive_resetReactive: "unreactive (resetReactive ps) = unreactive ps"
  by (induction ps) (auto simp: unreactive_def resetReactive_def)

lemma copyRotationsOpt_only_reactive: "only_reactive s (copyRotationsOpt s rs)"
  by (cases rs) (simp_all add: copyRotationsOpt_def only_reactive_def unreactive_copyRotations)

lemma applyBreathingPatterns_only_reactive: "only_reactive s (applyBreathingPatterns s t)"
  by (simp add: applyBreathingPatterns_def only_reactive_def unreactive_breatheCycles)

lemma seq_Inr:
  assumes "seq r f = Inr y"
  obtains x where "r = Inr x" "f x = Inr y"
  using assms by (cases r) (simp_all add: seq_def)

lemma cond_apply_only_reactive:
  assumes "(if b then applyRelationship s name i else Inr s) = Inr s'"
  shows "only_reactive s s'"
  using assms by (cases b) (simp_all add: applyRelationship_only_reactive only_reactive_refl)

lemma processAudioReactivity_only_reactive:
  assumes "processAudioReactivity s levels = Inr s'"
  shows "only_reactive s s'"
proof (cases levels)
  case None
  with assms show ?thesis by (simp add: processAudioReactivity_def only_reactive_refl)
next
  case (Some a)
  from assms[unfolded processAudioReactivity_def Some option.case]
  obtain s1 where 1: "applyRelationship s ''audioBass'' (bass a) = Inr s1"
    and r1: "seq (applyRelationship s1 ''audioMid'' (mid a)) (\<lambda>s2.
          seq (applyRelationship s2 ''audioHigh'' (high a)) (\<lambda>s3.
          seq (if beatDetected a then applyRelationship s3 ''beatDetected'' (Fin 1.0) else Inr s3) (\<lambda>s4.
          seq (if truthy (harmonicResonance a)
               then applyRelationship s4 ''harmonicResonance'' (harmonicResonance a) else Inr s4) (\<lambda>s5.
          Inr (copyRotationsOpt s5 (rotations_audio a)))))) = Inr s'"
    by (rule seq_Inr)
  from r1 obtain s2 where 2: "applyRelationship s1 ''audioMid'' (mid a) = Inr s2"
    and r2: "seq (applyRelationship s2 ''audioHigh'' (high a)) (\<lambda>s3.
          seq (if beatDetected a then applyRelationship s3 ''beatDetected'' (Fin 1.0) else Inr s3) (\<lambda>s4.
          seq (if truthy (harmonicResonance a)
               then applyRelationship s4 ''harmonicResonance'' (harmonicResonance a) else Inr s4) (\<lambda>s5.
          Inr (copyRotationsOpt s5 (rotations_audio a))))) = Inr s'"
    by (rule seq_Inr)
  from r2 obtain s3 where 3: "applyRelationship s2 ''audioHigh'' (high a) = Inr s3"
    and r3: "seq (if beatDetected a then applyRelationship s3 ''beatDetected'' (Fin 1.0) else Inr s3) (\<lambda>s4.
          seq (if truthy (harmonicResonance a)
               then applyRelationship s4 ''harmonicResonance'' (harmonicResonance a) else Inr s4) (\<lambda>s5.
          Inr (copyRotationsOpt s5 (rotations_audio a)))) = Inr s'"
    by (rule seq_Inr)
  from r3 obtain s4 where 4: "(if beatDetected a then applyRelationship s3 ''beatDetected'' (Fin 1.0) else Inr s3) = Inr s4"
    and r4: "seq (if truthy (harmonicResonance a)
               then applyRelationship s4 ''harmonicResonance'' (harmonicResonance a) else Inr s4) (\<lambda>s5.
          Inr (copyRotationsOpt s5 (rotations_audio a))) = Inr s'"
    by (rule seq_Inr)
  from r4 obtain s5 where 5: "(if truthy (harmonicResonance a)
               then applyRelationship s4 ''harmonicResonance'' (harmonicResonance a) else Inr s4) = Inr s5"
    and r5: "Inr (copyRotationsOpt s5 (rotations_audio a)) = (Inr s' :: error + urs)"
    by (rule seq_Inr)
  from r5 have 6: "s' = copyRotationsOpt s5 (rotations_audio a)" by simp
  have "only_reactive s s1" by (rule applyRelationship_only_reactive[OF 1])
  also have "only_reactive s1 s2" by (rule applyRelationship_only_reactive[OF 2])
  also have "only_reactive s2 s3" by (rule applyRelationship_only_reactive[OF 3])
  also have "only_reactive s3 s4" by (rule cond_apply_only_reactive[OF 4])
  also have "only_reactive s4 s5" by (rule cond_apply_only_reactive[OF 5])
  also have "only_reactive s5 s'" unfolding 6 by (rule copyRotationsOpt_only_reactive)
  finally show ?thesis .
qed


lemma processTouchReactivity_only_reactive:
  assumes "processTouchReactivity s state = Inr s'"
  shows "only_reactive s s'"
proof (cases state)
  case None
  with assms show ?thesis by (simp add: processTouchReactivity_def only_reactive_refl)
next
  case (Some c)
  obtain x y where xy: "(case touchVelocity c of None \<Rightarrow> (NaN, NaN) | Some v \<Rightarrow> v) = (x, y)"
    by (cases "case touchVelocity c of None \<Rightarrow> (NaN, NaN) | Some v \<Rightarrow> v")
  from assms[unfolded processTouchReactivity_def Some option.case xy Let_def prod.case]
  obtain s1 where 1: "applyRelationship s ''touchVelocity'' (Math_sqrt (or0 (x * x + y * y)) * Fin 0.01) = Inr s1"
    and r1: "seq (if pinchActive c then applyRelationship s1 ''pinchGesture'' (Fin 1.0) else Inr s1) (\<lambda>s2.
             Inr (copyRotationsOpt s2 (rotations_touch c))) = Inr s'"
    by (rule seq_Inr)
  from r1 obtain s2 where 2: "(if pinchActive c then applyRelationship s1 ''pinchGesture'' (Fin 1.0) else Inr s1) = Inr s2"
    and r2: "Inr (copyRotationsOpt s2 (rotations_touch c)) = (Inr s' :: error + urs)"
    by (rule seq_Inr)
  from r2 have 3: "s' = copyRotationsOpt s2 (rotations_touch c)" by simp
  have "only_reactive s s1" by (rule applyRelationship_only_reactive[OF 1])
  also have "only_reactive s1 s2" by (rule cond_apply_only_reactive[OF 2])
  also have "only_reactive s2 s'" unfolding 3 by (rule copyRotationsOpt_only_reactive)
  finally show ?thesis .
qed

lemma processGyroscopeReactivity_only_reactive:
  assumes "processGyroscopeReactivity s state = Inr s'"
  shows "only_reactive s s'"
proof (cases state)
  case None
  with assms show ?thesis by (simp add: processGyroscopeReactivity_def only_reactive_refl)
next
  case (Some c)
  obtain x y where xy: "(case gyroState c of None \<Rightarrow> (NaN, NaN) | Some g \<Rightarrow> g) = (x, y)"
    by (cases "case gyroState c of None \<Rightarrow> (NaN, NaN) | Some g \<Rightarrow> g")
  from assms[unfolded processGyroscopeReactivity_def Some option.case xy Let_def prod.case]
  obtain s1 where 1: "applyRelationship s ''gyroscopeTilt''
        (Math_sqrt (or0 (x * x) + or0 (y * y)) * Fin 0.1) = Inr s1"
    and r1: "Inr (copyRotationsOpt s1 (rotations_gyro c)) = (Inr s' :: error + urs)"
    by (rule seq_Inr)
  from r1 have 2: "s' = copyRotationsOpt s1 (rotations_gyro c)" by simp
  have "only_reactive s s1" by (rule applyRelationship_only_reactive[OF 1])
  also have "only_reactive s1 s'" unfolding 2 by (rule copyRotationsOpt_only_reactive)
  finally show ?thesis .
qed

lemma accumulateReactive_only_reactive:
  assumes "accumulateReactive s fr = Inr s'"
  shows "only_reactive s s'"
proof -
  let ?s0 = "s\<lparr>parameters := resetReactive (parameters s)\<rparr>"
  from assms[unfolded accumulateReactive_def]
  obtain s1 where 1: "processAudioReactivity ?s0 (audio fr) = Inr s1"
    and r1: "seq (processTouchReactivity s1 (touch fr)) (\<lambda>s2.
         seq (processGyroscopeReactivity s2 (gyroscope fr)) (\<lambda>s3.
         Inr (applyBreathingPatterns s3 (currentTime fr)))) = Inr s'"
    by (rule seq_Inr)
  from r1 obtain s2 where 2: "processTouchReactivity s1 (touch fr) = Inr s2"
    and r2: "seq (processGyroscopeReactivity s2 (gyroscope fr)) (\<lambda>s3.
         Inr (applyBreathingPatterns s3 (currentTime fr))) = Inr s'"
    by (rule seq_Inr)
  from r2 obtain s3 where 3: "processGyroscopeReactivity s2 (gyroscope fr) = Inr s3"
    and r3: "Inr (applyBreathingPatterns s3 (currentTime fr)) = (Inr s' :: error + urs)"
    by (rule seq_Inr)
  from r3 have 4: "s' = applyBreathingPatterns s3 (currentTime fr)" by simp
  have "only_reactive s ?s0"
    by (rule only_reactive_parameters) (rule unreactive_resetReactive)
  also have "only_reactive ?s0 s1" by (rule processAudioReactivity_only_reactive[OF 1])
  also have "only_reactive s1 s2" by (rule processTouchReactivity_only_reactive[OF 2])
  also have "only_reactive s2 s3" by (rule processGyroscopeReactivity_only_reactive[OF 3])
  also have "only_reactive s3 s'" unfolding 4 by (rule applyBreathingPatterns_only_reactive)
  finally show ?thesis .
qed

lemma only_reactive_fields:
  assumes "only_reactive s s'"
  shows "relationships s' = relationships s" "smoothingFactors s' = smoothingFactors s"
    "breathingPatterns s' = breathingPatterns s" "isActive s' = isActive s"
    "updateCallback s' = updateCallback s" "lastUpdateTime s' = lastUpdateTime s"
    "map fst (parameters s') = map fst (parameters s)"
proof -
  from assms have e: "s' = s\<lparr>parameters := parameters s'\<rparr>"
    and u: "unreactive (parameters s') = unreactive (parameters s)"
    by (simp_all add: only_reactive_def)
  show "relationships s' = relationships s" "smoothingFactors s' = smoothingFactors s"
    "breathingPatterns s' = breathingPatterns s" "isActive s' = isActive s"
    "updateCallback s' = updateCallback s" "lastUpdateTime s' = lastUpdateTime s"
    by (rule same_but_parameters[OF e])+
  show "map fst (parameters s') = map fst (parameters s)" by (rule unreactive_keys[OF u])
qed

lemma only_reactive_lookup:
  assumes "only_reactive s s'" "map_of (parameters s) k = Some p"
  shows "\<exists>p'. map_of (parameters s') k = Some p' \<and> value_p p' = value_p p \<and> base p' = base p
            \<and> smoothed p' = smoothed p"
  using assms unreactive_lookup[of "parameters s'" "parameters s" k p]
  by (simp add: only_reactive_def)

subsection \<open>The constraining pass\<close>

lemma constrainAll_keys:
  assumes "constrainAll ps = Some ps'"
  shows "map fst ps' = map fst ps"
  using assms
proof (induction ps arbitrary: ps')
  case Nil
  then show ?case by simp
next
  case (Cons a ps)
  obtain k p where a: "a = (k, p)" by (cases a)
  from Cons.prems obtain v qs where "constrainParameter k (base p + reactive p) = Some v"
    "constrainAll ps = Some qs" "ps' = (k, p\<lparr>value_p := v\<rparr>) # qs"
    by (auto simp: a split: Option.bind_splits)
  with Cons.IH[of qs] show ?case by (simp add: a)
qed

lemma constrainAll_lookup:
  assumes "constrainAll ps = Some ps'" "map_of ps k = Some p"
  shows "\<exists>v. constrainParameter k (base p + reactive p) = Some v \<and> map_of ps' k = Some (p\<lparr>value_p := v\<rparr>)"
  using assms
proof (induction ps arbitrary: ps')
  case Nil
  then show ?case by simp
next
  case (Cons a ps)
  obtain k' q where a: "a = (k', q)" by (cases a)
  from Cons.prems(1) obtain v qs where
    v: "constrainParameter k' (base q + reactive q) = Some v"
    and qs: "constrainAll ps = Some qs" and ps': "ps' = (k', q\<lparr>value_p := v\<rparr>) # qs"
    by (auto simp: a split: Option.bind_splits)
  show ?case
  proof (cases "k = k'")
    case True
    with Cons.prems(2) a have "p = q" by simp
    with True v ps' show ?thesis by simp
  next
    case False
    with Cons.prems(2) a have "map_of ps k = Some p" by simp
    from Cons.IH[OF qs this] False ps' show ?thesis by simp
  qed
qed

lemma constrainAll_total:
  assumes "\<forall>(k, p) \<in> set ps. constrainParameter k (base p + reactive p) \<noteq> None"
  shows "\<exists>ps'. constrainAll ps = Some ps'"
  using assms
proof (induction ps)
  case Nil
  show ?case by simp
next
  case (Cons a ps)
  obtain k p where a: "a = (k, p)" by (cases a)
  from Cons.prems a obtain v where v: "constrainParameter k (base p + reactive p) = Some v" by auto
  from Cons.prems have "\<forall>(k, p) \<in> set ps. constrainParameter k (base p + reactive p) \<noteq> None" by simp
  from Cons.IH[OF this] obtain qs where "constrainAll ps = Some qs" ..
  with v show ?case by (simp add: a)
qed

lemma wrap_only_hue:
  assumes "map_of constraints k = Some c" "wrap_c c"
  shows "k = ''hue''"
  using assms by (auto simp: constraints_def split: if_splits)

lemma constrainParameter_total_not_hue:
  assumes "k \<noteq> ''hue''"
  shows "constrainParameter k v \<noteq> None"
proof (cases "map_of constraints k")
  case None
  then show ?thesis by (simp add: constrainParameter_def js_get_def)
next
  case (Some c)
  with wrap_only_hue[OF Some] assms have "\<not> wrap_c c" by blast
  with Some show ?thesis by (simp add: constrainParameter_def js_get_def)
qed

lemma constrainParameter_NaN: "constrainParameter k NaN = Some NaN"
proof (cases "map_of constraints k")
  case None
  then show ?thesis by (simp add: constrainParameter_def js_get_def Math_max_def Math_min_def)
next
  case (Some c)
  have 1: "wrap_below c NaN = Some NaN" by (subst wrap_below.simps) simp
  have 2: "wrap_above c NaN = Some NaN" by (subst wrap_above.simps) (cases "max_c c"; simp)
  show ?thesis using Some by (simp add: constrainParameter_def js_get_def 1 2 Math_max_def Math_min_def)
qed

lemma constrainParameter_undefined:
  assumes "js_get constraints k = Undefined"
  shows "constrainParameter k v = Some v"
  using assms by (simp add: constrainParameter_def)

lemma constrainAll_None:
  assumes "map_of ps k = Some p" "constrainParameter k (base p + reactive p) = None"
  shows "constrainAll ps = None"
proof (cases "constrainAll ps")
  case None
  then show ?thesis .
next
  case (Some ps')
  from constrainAll_lookup[OF Some assms(1)] assms(2) show ?thesis by simp
qed

subsection \<open>Scenario A\<close>

lemmas frame_defs = applyRelationship_def seq_def addReactive_def positiveMultiplier_def
  negativeMultiplier_def truthy_def resetReactive_def processAudioReactivity_def
  processTouchReactivity_def processGyroscopeReactivity_def applyBreathingPatterns_def
  copyRotationsOpt_def accumulateReactive_def start_def setBreathingEnabled_def js_get_def

lemma scenarioA_accumulate:
  "accumulateReactive (start (setBreathingEnabled (constructor t0) False)) scenarioA_frame =
     Inr ((start (setBreathingEnabled (constructor t0) False))
       \<lparr>parameters :=
          [(''rot4dXW'', mk_param 0), (''rot4dYW'', mk_param 0), (''rot4dZW'', mk_param 0),
           (''rot4dXY'', mk_param 0),
           (''rot4dXZ'', (mk_param 0)\<lparr>reactive := Fin 0.8\<rparr>),
           (''rot4dYZ'', (mk_param 0)\<lparr>reactive := Fin 0.8\<rparr>),
           (''geometry'', mk_param 0), (''gridDensity'', mk_param 15),
           (''morphFactor'', (mk_param 0.5)\<lparr>reactive := Fin (- 0.3)\<rparr>),
           (''chaos'', mk_param 0.2),
           (''speed'', (mk_param 1.0)\<lparr>reactive := Fin 0.4\<rparr>),
           (''scale'', (mk_param 1.0)\<lparr>reactive := Fin (- 0.2)\<rparr>),
           (''hue'', (mk_param 200)\<lparr>reactive := Fin 50\<rparr>),
           (''intensity'', mk_param 0.9), (''saturation'', mk_param 0.6)]\<rparr>)"
  by (simp add: constructor_defs frame_defs scenarioA_frame_def)

text \<open>
  Claim C9. Start the system with the breathing patterns switched off, so that nothing but the
  relationship contributes to hue, and run one frame in which the audio source reports a high
  band of 1.0. The accumulator of hue is 50 after the accumulation phase; the frame completes,
  leaves hue with value 250 and smoothed 206 = 200 + 0.12 * (250 - 200), 0.12 being the factor
  of the colour category, and hands 206 to the callback.
\<close>

theorem scenario_A:
  "\<exists>s1 s'. accumulateReactive (start (setBreathingEnabled (constructor t0) False)) scenarioA_frame = Inr s1
     \<and> reactive_at s1 ''hue'' = Some (Fin 50)
     \<and> processReactivity (start (setBreathingEnabled (constructor t0) False)) scenarioA_frame =
         Some (Inr (s', Some (finalParameters s')))
     \<and> map_of (parameters s') ''hue'' =
         Some \<lparr>value_p = Fin 250, base = Fin 200, reactive = Fin 50, smoothed = Fin 206\<rparr>
     \<and> smoothingFactor (smoothingFactors s') ''hue'' = Fin 0.12
     \<and> (200 + 0.12 * (250 - 200) = (206::real))
     \<and> map_of (finalParameters s') ''hue'' = Some (Fin 206)"
proof -
  let ?S = "start (setBreathingEnabled (constructor t0) False)"
  note acc = scenarioA_accumulate[of t0]
  have 1: "wrap_below hue_c (Fin 250) = Some (Fin 250)" by (simp add: wrap_below_unfold)
  have 2: "wrap_above hue_c (Fin 250) = Some (Fin 250)" by (simp add: wrap_above_unfold)
  obtain s1 where s1: "accumulateReactive ?S scenarioA_frame = Inr s1"
    and react: "reactive_at s1 ''hue'' = Some (Fin 50)"
    using acc by (simp add: reactive_at_def mk_param_def)
  have "\<exists>s'. processReactivity ?S scenarioA_frame = Some (Inr (s', Some (finalParameters s')))
     \<and> map_of (parameters s') ''hue'' =
         Some \<lparr>value_p = Fin 250, base = Fin 200, reactive = Fin 50, smoothed = Fin 206\<rparr>
     \<and> smoothingFactor (smoothingFactors s') ''hue'' = Fin 0.12
     \<and> map_of (finalParameters s') ''hue'' = Some (Fin 206)"
    unfolding processReactivity_def acc
    by (simp add: applyParameterRelationships_def smoothParameters_def finalParameters_def
        constrainParameter_def js_get_def constraints_def Math_max_def Math_min_def 1 2
        mk_param_def start_def setBreathingEnabled_def constructor_def
        initial_smoothing_def smoothingFactor_def)
  with s1 react show ?thesis by auto
qed

subsection \<open>The hue snapshot\<close>

lemma initial_keys_distinct: "distinct (map fst initial_parameters)"
  by (simp add: initial_parameters_def)

lemma hue_invariantD:
  assumes "hue_invariant s"
  shows "map fst (parameters s) = map fst initial_parameters" "smoothingFactors s = initial_smoothing"
    "\<exists>p b h. map_of (parameters s) ''hue'' = Some p \<and> base p = Fin b \<and> smoothed p = Fin h \<and> 0 \<le> h \<and> h < 360"
proof -
  from assms show "map fst (parameters s) = map fst initial_parameters" "smoothingFactors s = initial_smoothing"
    by (simp_all add: hue_invariant_def)
  from assms obtain p where p: "map_of (parameters s) ''hue'' = Some p" "isFinite (base p)"
    "Fin 0 \<le> smoothed p" "smoothed p < Fin 360"
    by (auto simp: hue_invariant_def split: option.splits)
  from p(2) obtain b where "base p = Fin b" by (cases "base p") (simp_all add: isFinite_def)
  moreover from p(3,4) obtain h where "smoothed p = Fin h" "0 \<le> h" "h < 360"
    by (cases "smoothed p") simp_all
  ultimately show "\<exists>p b h. map_of (parameters s) ''hue'' = Some p \<and> base p = Fin b \<and> smoothed p = Fin h \<and> 0 \<le> h \<and> h < 360"
    using p(1) by blast
qed

lemma hue_invariantI:
  assumes "map fst (parameters s) = map fst initial_parameters" "smoothingFactors s = initial_smoothing"
    "map_of (parameters s) ''hue'' = Some p" "base p = Fin b" "smoothed p = Fin h" "0 \<le> h" "h < 360"
  shows "hue_invariant s"
  using assms by (simp add: hue_invariant_def isFinite_def)

text \<open>A frame that completes keeps the invariant, and the hue entry of its snapshot is a number
  from 0 up to, but not including, 360.\<close>

lemma frame_preserves:
  assumes inv: "hue_invariant s" and act: "isActive s"
    and acc: "accumulateReactive s fr = Inr s1" and fin: "reactive_at s1 ''hue'' = Some (Fin x)"
    and run: "processReactivity s fr = Some (Inr (s', out))"
  shows "out = (if updateCallback s then Some (finalParameters s') else None)
          \<and> hue_invariant s'
          \<and> (\<exists>h. map_of (finalParameters s') ''hue'' = Some (Fin h) \<and> 0 \<le> h \<and> h < 360)"
proof -
  note or = accumulateReactive_only_reactive[OF acc]
  note f1 = only_reactive_fields[OF or]
  from hue_invariantD[OF inv] obtain p b h where
    keys: "map fst (parameters s) = map fst initial_parameters"
    and sf: "smoothingFactors s = initial_smoothing"
    and p: "map_of (parameters s) ''hue'' = Some p" "base p = Fin b" "smoothed p = Fin h" "0 \<le> h" "h < 360"
    by blast
  from only_reactive_lookup[OF or p(1)] obtain p1 where
    p1: "map_of (parameters s1) ''hue'' = Some p1" "base p1 = base p" "smoothed p1 = smoothed p"
    by blast
  from fin p1(1) have r1: "reactive p1 = Fin x" by (simp add: reactive_at_def)
  have keys1: "map fst (parameters s1) = map fst initial_parameters" using f1(7) keys by simp
  from run act acc obtain s2 where apr: "applyParameterRelationships s1 = Some s2"
    and s': "s' = (smoothParameters s2)\<lparr>lastUpdateTime := currentTime fr\<rparr>"
    and out: "out = (if updateCallback (smoothParameters s2)
                     then Some (finalParameters (smoothParameters s2)) else None)"
    by (auto simp: processReactivity_def Let_def split: option.splits)
  from apr obtain ps2 where ps2: "constrainAll (parameters s1) = Some ps2"
    and s2: "s2 = s1\<lparr>parameters := ps2\<rparr>"
    by (auto simp: applyParameterRelationships_def)
  from constrainAll_lookup[OF ps2 p1(1)] obtain v where
    v: "constrainParameter ''hue'' (base p1 + reactive p1) = Some v"
    and l2: "map_of ps2 ''hue'' = Some (p1\<lparr>value_p := v\<rparr>)" by blast
  from v p1(2) p(2) r1 have "constrainParameter ''hue'' (Fin (b + x)) = Some v" by simp
  from constrain_hue_range[OF this] obtain y where
    y: "v = Fin y" "0 \<le> y" "y \<le> 360" by auto
  let ?s2 = "s1\<lparr>parameters := ps2\<rparr>"
  let ?s3 = "smoothParameters ?s2"
  let ?s' = "?s3\<lparr>lastUpdateTime := currentTime fr\<rparr>"
  have cb: "updateCallback ?s3 = updateCallback s" using f1(5) by (simp add: smoothParameters_def)
  have fp: "finalParameters ?s' = finalParameters ?s3" by (simp add: finalParameters_def)
  have o: "out = (if updateCallback s then Some (finalParameters s') else None)"
    using out cb fp by (simp add: s' s2)
  let ?h' = "h + (y - h) * 0.12"
  have sf2: "smoothingFactor (smoothingFactors ?s2) ''hue'' = Fin 0.12"
    using f1(2) sf by (simp add: smoothingFactor_def initial_smoothing_def)
  have "map_of (parameters ?s3) ''hue'' =
      Some (p1\<lparr>value_p := v, smoothed := smoothed (p1\<lparr>value_p := v\<rparr>)
          + (value_p (p1\<lparr>value_p := v\<rparr>) - smoothed (p1\<lparr>value_p := v\<rparr>)) * smoothingFactor (smoothingFactors ?s2) ''hue''\<rparr>)"
    unfolding smoothParameters_def by (simp add: map_of_map_values l2)
  then have l3: "map_of (parameters ?s3) ''hue'' = Some (p1\<lparr>value_p := v, smoothed := Fin ?h'\<rparr>)"
    unfolding sf2 by (simp add: y p1(3) p(3))
  have conv: "?h' = (22 * h + 3 * y) / 25" by (simp add: field_simps)
  have "0 \<le> 22 * h + 3 * y" "22 * h + 3 * y < 25 * 360" using p(4,5) y(2,3) by linarith+
  then have h0: "0 \<le> ?h'" and h1: "?h' < 360" unfolding conv by simp_all
  have keys3: "map fst (parameters ?s') = map fst initial_parameters"
    using constrainAll_keys[OF ps2] keys1 by (simp add: smoothParameters_def case_prod_unfold comp_def)
  have sf3: "smoothingFactors ?s' = initial_smoothing"
    using f1(2) sf by (simp add: smoothParameters_def)
  have l4: "map_of (parameters ?s') ''hue'' = Some (p1\<lparr>value_p := v, smoothed := Fin ?h'\<rparr>)"
    using l3 by simp
  have inv': "hue_invariant ?s'"
    by (rule hue_invariantI[OF keys3 sf3 l4 _ _ h0 h1]) (simp_all add: p1(2) p(2))
  have "map_of (finalParameters ?s') ''hue'' = Some (Fin ?h')"
    unfolding finalParameters_def by (simp only: map_of_map_values l4) simp
  with o inv' h0 h1 show ?thesis unfolding s' s2 by blast
qed

text \<open>The frame does complete when the combined value of hue is at most \<open>2 ^ 62\<close> in
  magnitude.\<close>

lemma frame_completes:
  assumes inv: "hue_invariant s" and act: "isActive s"
    and acc: "accumulateReactive s fr = Inr s1" and fin: "reactive_at s1 ''hue'' = Some (Fin x)"
    and b: "map_option base (map_of (parameters s) ''hue'') = Some (Fin b)" and small: "\<bar>b + x\<bar> \<le> 2 ^ 62"
  shows "\<exists>s' out. processReactivity s fr = Some (Inr (s', out))"
proof -
  note or = accumulateReactive_only_reactive[OF acc]
  note f1 = only_reactive_fields[OF or]
  from b obtain p where p: "map_of (parameters s) ''hue'' = Some p" "base p = Fin b" by auto
  from hue_invariantD(1)[OF inv] have keys: "map fst (parameters s) = map fst initial_parameters" .
  from only_reactive_lookup[OF or p(1)] obtain p1 where
    p1: "map_of (parameters s1) ''hue'' = Some p1" "base p1 = base p" by blast
  from fin p1(1) have r1: "reactive p1 = Fin x" by (simp add: reactive_at_def)
  have keys1: "map fst (parameters s1) = map fst initial_parameters" using f1(7) keys by simp
  then have dist1: "distinct (map fst (parameters s1))" using initial_keys_distinct by simp
  have "\<forall>(k, q) \<in> set (parameters s1). constrainParameter k (base q + reactive q) \<noteq> None"
  proof -
    have "constrainParameter k (base q + reactive q) \<noteq> None"
      if kq: "(k, q) \<in> set (parameters s1)" for k q
    proof
      assume none: "constrainParameter k (base q + reactive q) = None"
      from constrainParameter_total_not_hue[of k] none have k: "k = ''hue''" by blast
      with kq dist1 have "map_of (parameters s1) ''hue'' = Some q" by simp
      with p1(1) have "q = p1" by simp
      with none k p1(2) p(2) r1 have "constrainParameter ''hue'' (Fin (b + x)) = None" by simp
      with constrain_hue_returns[OF small] show False by auto
    qed
    then show ?thesis by auto
  qed
  from constrainAll_total[OF this] obtain ps2 where ps2: "constrainAll (parameters s1) = Some ps2" ..
  then have "applyParameterRelationships s1 = Some (s1\<lparr>parameters := ps2\<rparr>)"
    by (simp add: applyParameterRelationships_def)
  with act acc show ?thesis by (simp add: processReactivity_def Let_def)
qed

lemma hue_invariant_constructor: "hue_invariant (constructor t0)"
  by (simp add: hue_invariant_def constructor_def initial_parameters_def mk_param_def isFinite_def)

lemma hue_invariant_setBaseParameter:
  assumes "hue_invariant s" "k = ''hue'' \<longrightarrow> isFinite v"
  shows "hue_invariant (setBaseParameter s k v)"
proof (cases "map_of (parameters s) k")
  case None
  with assms show ?thesis by (simp add: setBaseParameter_def js_get_def)
next
  case (Some q)
  from hue_invariantD[OF assms(1)] obtain p b h where
    keys: "map fst (parameters s) = map fst initial_parameters"
    and sf: "smoothingFactors s = initial_smoothing"
    and p: "map_of (parameters s) ''hue'' = Some p" "base p = Fin b" "smoothed p = Fin h" "0 \<le> h" "h < 360"
    by blast
  let ?s' = "s\<lparr>parameters := AList.map_entry k (\<lambda>p. p\<lparr>base := v\<rparr>) (parameters s)\<rparr>"
  have e: "setBaseParameter s k v = ?s'" using Some by (simp add: setBaseParameter_def js_get_def)
  have "hue_invariant ?s'"
    using keys sf p assms(2)
    by (auto simp: hue_invariant_def map_fst_map_entry map_of_map_entry_at isFinite_def)
  with e show ?thesis by simp
qed

lemma hue_invariant_configureRelationship:
  assumes "hue_invariant s"
  shows "hue_invariant (configureRelationship s name ms)"
  using assms
  by (cases "map_of (relationships s) name")
     (simp_all add: configureRelationship_def js_get_def hue_invariant_def)


lemma reachable_hue_invariant:
  assumes "reachable s"
  shows "hue_invariant s"
  using assms
proof (induction rule: reachable.induct)
  case (r_new t0)
  show ?case by (rule hue_invariant_constructor)
next
  case (r_start s)
  then show ?case by (simp add: hue_invariant_def start_def)
next
  case (r_stop s)
  then show ?case by (simp add: hue_invariant_def stop_def)
next
  case (r_base s k v)
  then show ?case by (simp add: hue_invariant_setBaseParameter)
next
  case (r_configure s name ms)
  then show ?case by (simp add: hue_invariant_configureRelationship)
next
  case (r_breathing s b)
  then show ?case by (simp add: hue_invariant_def setBreathingEnabled_def)
next
  case (r_frame s fr s1 x s' out)
  show ?case
  proof (cases "isActive s")
    case True
    from frame_preserves[OF r_frame.IH True r_frame.hyps(2,3,4)]
    show ?thesis by blast
  next
    case False
    with r_frame.hyps(4) have "s' = s" by (simp add: processReactivity_def)
    with r_frame.IH show ?thesis by simp
  qed
qed

text \<open>In every reachable state of a running system, a frame whose accumulation phase leaves a
  finite number in the accumulator of hue and which completes produces a snapshot whose hue entry
  is a number from 0 up to, but not including, 360; and the frame does complete when base plus
  accumulator is at most \<open>2 ^ 62\<close> in magnitude.\<close>

lemma hue_snapshot_if_emitted:
  assumes "reachable s" "isActive s"
    and "accumulateReactive s fr = Inr s1" "reactive_at s1 ''hue'' = Some (Fin x)"
  shows "(\<forall>s' out. processReactivity s fr = Some (Inr (s', out)) \<longrightarrow>
            out = (if updateCallback s then Some (finalParameters s') else None)
            \<and> (\<exists>h. map_of (finalParameters s') ''hue'' = Some (Fin h) \<and> 0 \<le> h \<and> h < 360))
       \<and> (\<forall>b. map_option base (map_of (parameters s) ''hue'') = Some (Fin b) \<and> \<bar>b + x\<bar> \<le> 2 ^ 62 \<longrightarrow>
            (\<exists>s' out. processReactivity s fr = Some (Inr (s', out))))"
  using frame_preserves[OF reachable_hue_invariant[OF assms(1)] assms(2,3,4)]
    frame_completes[OF reachable_hue_invariant[OF assms(1)] assms(2,3,4)]
  by blast

lemma round_double_big_sum: "round_double (10000000000000000200 - 360) = Fin (10 ^ 19)"
proof (rule round_double_eq)
  show "(10000000000000000200 - 360 :: real) \<noteq> 0" by simp
  show "quantum (10000000000000000200 - 360) = 2048"
    using quantum_eq[of 63 "10000000000000000200 - 360"] by simp
  show "round_even ((10000000000000000200 - 360) / 2048) = 4882812500000000"
    by (rule round_even_eq) simp_all
  show "of_int 4882812500000000 * 2048 = (10 ^ 19 :: real)" by simp
  show "\<bar>10 ^ 19 :: real\<bar> < 2 ^ 1024" by simp
qed

lemma constrain_hue_large_sum: "constrainParameter ''hue'' (Fin 10000000000000000200) = None"
proof -
  have "wrap_above hue_c (Fin 10000000000000000200) = wrap_above hue_c (Fin (10 ^ 19))"
    by (subst wrap_above_unfold) (simp only: round_double_big_sum, simp)
  then show ?thesis
    using wrap_above_large_diverges by (simp add: constrain_hue_eq wrap_below_unfold)
qed

text \<open>
  Claim C2 at a failing input. The state is reachable (constructor, breathing switched off,
  start), and the frame's audio source reports the finite high band \<open>2 * 10 ^ 17\<close>, so the
  accumulation phase completes and leaves the finite number \<open>10 ^ 19\<close> in the accumulator of
  hue. The frame does not report a hue in the range: it never returns, so no snapshot is produced
  at all. In double precision \<^verbatim>\<open>1e19 - 360\<close> is \<^verbatim>\<open>1e19\<close> again, and the loop
  \<^verbatim>\<open>while (value > max) value -= (max - min)\<close> never exits.
\<close>

theorem hue_large_reactive_hangs:
  "reachable (start (setBreathingEnabled (constructor (Fin 0)) False))
   \<and> isActive (start (setBreathingEnabled (constructor (Fin 0)) False))
   \<and> (\<exists>s1. accumulateReactive (start (setBreathingEnabled (constructor (Fin 0)) False)) large_frame = Inr s1
          \<and> reactive_at s1 ''hue'' = Some (Fin (10 ^ 19)))
   \<and> processReactivity (start (setBreathingEnabled (constructor (Fin 0)) False)) large_frame = None"
proof -
  let ?S = "start (setBreathingEnabled (constructor (Fin 0)) False)"
  have r: "reachable ?S" by (intro reachable.intros)
  have a: "isActive ?S" by (simp add: start_def)
  have "\<exists>s1. accumulateReactive ?S large_frame = Inr s1
          \<and> map_of (parameters s1) ''hue'' =
               Some \<lparr>value_p = Fin 200, base = Fin 200, reactive = Fin (10 ^ 19), smoothed = Fin 200\<rparr>"
    by (simp add: constructor_defs frame_defs large_frame_def)
  then obtain s1 where s1: "accumulateReactive ?S large_frame = Inr s1"
    and hue: "map_of (parameters s1) ''hue'' =
               Some \<lparr>value_p = Fin 200, base = Fin 200, reactive = Fin (10 ^ 19), smoothed = Fin 200\<rparr>"
    by blast
  from hue have react: "reactive_at s1 ''hue'' = Some (Fin (10 ^ 19))" by (simp add: reactive_at_def)
  have "constrainAll (parameters s1) = None"
    by (rule constrainAll_None[OF hue]) (use constrain_hue_large_sum in simp)
  then have "applyParameterRelationships s1 = None" by (simp add: applyParameterRelationships_def)
  with a s1 have "processReactivity ?S large_frame = None" by (simp add: processReactivity_def)
  with r a s1 react show ?thesis by blast
qed

subsection \<open>Non-finite values\<close>

lemma nan_accumulate:
  "accumulateReactive (start (setBreathingEnabled (constructor t0) False)) nan_frame =
     Inr ((start (setBreathingEnabled (constructor t0) False))
       \<lparr>parameters :=
          [(''rot4dXW'', (mk_param 0)\<lparr>reactive := NaN\<rparr>),
           (''rot4dYW'', mk_param 0), (''rot4dZW'', mk_param 0),
           (''rot4dXY'', mk_param 0), (''rot4dXZ'', mk_param 0), (''rot4dYZ'', mk_param 0),
           (''geometry'', mk_param 0), (''gridDensity'', mk_param 15),
           (''morphFactor'', mk_param 0.5), (''chaos'', mk_param 0.2),
           (''speed'', mk_param 1.0), (''scale'', mk_param 1.0),
           (''hue'', mk_param 200), (''intensity'', mk_param 0.9), (''saturation'', mk_param 0.6)]\<rparr>)"
  by (simp add: constructor_defs frame_defs nan_frame_def or0_def addReactiveIfPresent_def Let_def)

lemma constrainParameter_hue_total:
  assumes "v = NaN \<or> (\<exists>a. v = Fin a \<and> \<bar>a\<bar> \<le> 2 ^ 62)"
  shows "constrainParameter ''hue'' v \<noteq> None"
  using assms constrain_hue_returns by (auto simp: constrainParameter_NaN)

lemma finite_smoothed:
  assumes "isFinite (s + (v - s) * f)"
  shows "isFinite s \<and> isFinite v"
  using assms by (cases s; cases v; cases f) (simp_all add: isFinite_def minus_jsnum_def split: if_splits)

text \<open>Claim C7 fails: in a frame in which the touch source reports \<open>NaN\<close> for the axis
  rot4dXW, the smoothed value of that parameter after the frame is \<open>NaN\<close>, not its base 0, and
  \<open>NaN\<close> is what the callback receives.\<close>

theorem NaN_reaches_snapshot:
  "frame_result_param
      (processReactivity (start (setBreathingEnabled (constructor (Fin 0)) False)) nan_frame) ''rot4dXW''
     = Some \<lparr>value_p = NaN, base = Fin 0, reactive = NaN, smoothed = NaN\<rparr>
   \<and> frame_result_emitted
      (processReactivity (start (setBreathingEnabled (constructor (Fin 0)) False)) nan_frame) ''rot4dXW''
     = Some NaN"
proof -
  have 1: "wrap_below hue_c (Fin 200) = Some (Fin 200)" by (simp add: wrap_below_unfold)
  have 2: "wrap_above hue_c (Fin 200) = Some (Fin 200)" by (simp add: wrap_above_unfold)
  show ?thesis
    unfolding processReactivity_def nan_accumulate frame_result_param_def frame_result_emitted_def
    by (simp add: applyParameterRelationships_def smoothParameters_def finalParameters_def
        constrainParameter_def js_get_def constraints_def Math_max_def Math_min_def 1 2
        mk_param_def start_def setBreathingEnabled_def constructor_def
        initial_smoothing_def smoothingFactor_def minus_jsnum_def)
qed

text \<open>
  Claim C7, as the code has it. Nothing detects a \<open>NaN\<close> or an infinity, at the constraining
  pass or at the smoother. Whenever the constraining pass completes, every parameter gets the
  constrained value \<open>v\<close> of its own base + reactive, its smoothed value becomes
  smoothed + (v - smoothed) * factor, and that number is its entry in the snapshot. When
  base + reactive is \<open>NaN\<close>, \<open>v\<close> is \<open>NaN\<close>; for a parameter without a constraint entry
  (the rotations) \<open>v\<close> is base + reactive itself, an infinity included. When \<open>v\<close> or the
  previous smoothed value is not finite, the new smoothed value and the snapshot entry are not
  finite either: the value is propagated, not replaced by the base. The pass does complete when the
  combined value of hue is \<open>NaN\<close> or a finite number of magnitude at most \<open>2 ^ 62\<close>.
\<close>

theorem nonfinite_propagates:
  assumes k: "map_of (parameters s1) k = Some p"
  shows "((\<forall>(k', q) \<in> set (parameters s1). k' = ''hue'' \<longrightarrow>
              base q + reactive q = NaN \<or> (\<exists>a. base q + reactive q = Fin a \<and> \<bar>a\<bar> \<le> 2 ^ 62))
            \<longrightarrow> (\<exists>s2. applyParameterRelationships s1 = Some s2))
     \<and> (\<forall>s2. applyParameterRelationships s1 = Some s2 \<longrightarrow>
          (\<exists>v w. constrainParameter k (base p + reactive p) = Some v
             \<and> w = smoothed p + (v - smoothed p) * smoothingFactor (smoothingFactors s1) k
             \<and> map_of (parameters (smoothParameters s2)) k = Some (p\<lparr>value_p := v, smoothed := w\<rparr>)
             \<and> map_of (finalParameters (smoothParameters s2)) k = Some w
             \<and> (base p + reactive p = NaN \<longrightarrow> v = NaN)
             \<and> (js_get constraints k = Undefined \<longrightarrow> v = base p + reactive p)
             \<and> (\<not> isFinite v \<or> \<not> isFinite (smoothed p) \<longrightarrow> \<not> isFinite w)))"
proof (intro conjI impI allI)
  assume hue: "\<forall>(k', q) \<in> set (parameters s1). k' = ''hue'' \<longrightarrow>
              base q + reactive q = NaN \<or> (\<exists>a. base q + reactive q = Fin a \<and> \<bar>a\<bar> \<le> 2 ^ 62)"
  have "constrainParameter k' (base q + reactive q) \<noteq> None"
    if kq: "(k', q) \<in> set (parameters s1)" for k' q
  proof (cases "k' = ''hue''")
    case True
    with hue kq have "base q + reactive q = NaN \<or> (\<exists>a. base q + reactive q = Fin a \<and> \<bar>a\<bar> \<le> 2 ^ 62)"
      by blast
    with True show ?thesis by (simp add: constrainParameter_hue_total)
  next
    case False
    then show ?thesis by (rule constrainParameter_total_not_hue)
  qed
  then have "\<forall>(k', q) \<in> set (parameters s1). constrainParameter k' (base q + reactive q) \<noteq> None"
    by auto
  from constrainAll_total[OF this] obtain ps2 where "constrainAll (parameters s1) = Some ps2" ..
  then show "\<exists>s2. applyParameterRelationships s1 = Some s2"
    by (simp add: applyParameterRelationships_def)
next
  fix s2
  assume apr: "applyParameterRelationships s1 = Some s2"
  then obtain ps2 where ps2: "constrainAll (parameters s1) = Some ps2"
    and s2: "s2 = s1\<lparr>parameters := ps2\<rparr>"
    by (auto simp: applyParameterRelationships_def)
  from constrainAll_lookup[OF ps2 k] obtain v where
    v: "constrainParameter k (base p + reactive p) = Some v" "map_of ps2 k = Some (p\<lparr>value_p := v\<rparr>)"
    by blast
  define w where "w = smoothed p + (v - smoothed p) * smoothingFactor (smoothingFactors s1) k"
  have l: "map_of (parameters (smoothParameters s2)) k = Some (p\<lparr>value_p := v, smoothed := w\<rparr>)"
    unfolding smoothParameters_def s2 w_def by (simp add: map_of_map_values v(2))
  have f: "map_of (finalParameters (smoothParameters s2)) k = Some w"
    unfolding finalParameters_def by (simp only: map_of_map_values l) simp
  have n: "base p + reactive p = NaN \<longrightarrow> v = NaN"
    using v(1) by (auto simp: constrainParameter_NaN)
  have u: "js_get constraints k = Undefined \<longrightarrow> v = base p + reactive p"
    using v(1) by (auto simp: constrainParameter_undefined)
  have i: "\<not> isFinite v \<or> \<not> isFinite (smoothed p) \<longrightarrow> \<not> isFinite w"
    unfolding w_def using finite_smoothed by blast
  from v(1) w_def l f n u i
  show "\<exists>v w. constrainParameter k (base p + reactive p) = Some v
             \<and> w = smoothed p + (v - smoothed p) * smoothingFactor (smoothingFactors s1) k
             \<and> map_of (parameters (smoothParameters s2)) k = Some (p\<lparr>value_p := v, smoothed := w\<rparr>)
             \<and> map_of (finalParameters (smoothParameters s2)) k = Some w
             \<and> (base p + reactive p = NaN \<longrightarrow> v = NaN)
             \<and> (js_get constraints k = Undefined \<longrightarrow> v = base p + reactive p)
             \<and> (\<not> isFinite v \<or> \<not> isFinite (smoothed p) \<longrightarrow> \<not> isFinite w)"
    by blast
qed

theorem nonfinite_propagates_witness:
  "\<exists>s1 p. accumulateReactive (start (setBreathingEnabled (constructor (Fin 0)) False)) nan_frame = Inr s1
     \<and> map_of (parameters s1) ''rot4dXW'' = Some p \<and> base p + reactive p = NaN
     \<and> js_get constraints ''rot4dXW'' = Undefined
     \<and> list_all (\<lambda>(k', q). k' \<noteq> ''hue''
                    \<or> base q + reactive q = NaN \<or> (\<exists>a. base q + reactive q = Fin a \<and> \<bar>a\<bar> \<le> 2 ^ 62))
          (parameters s1)
     \<and> (\<exists>s2. applyParameterRelationships s1 = Some s2
          \<and> map_of (parameters (smoothParameters s2)) ''rot4dXW'' = Some (p\<lparr>value_p := NaN, smoothed := NaN\<rparr>)
          \<and> map_of (finalParameters (smoothParameters s2)) ''rot4dXW'' = Some NaN
          \<and> \<not> isFinite NaN)"
proof -
  let ?S = "start (setBreathingEnabled (constructor (Fin 0)) False)"
  let ?p = "(mk_param 0)\<lparr>reactive := NaN\<rparr>"
  obtain s1 where acc: "accumulateReactive ?S nan_frame = Inr s1"
    and ps: "parameters s1 =
          [(''rot4dXW'', (mk_param 0)\<lparr>reactive := NaN\<rparr>),
           (''rot4dYW'', mk_param 0), (''rot4dZW'', mk_param 0),
           (''rot4dXY'', mk_param 0), (''rot4dXZ'', mk_param 0), (''rot4dYZ'', mk_param 0),
           (''geometry'', mk_param 0), (''gridDensity'', mk_param 15),
           (''morphFactor'', mk_param 0.5), (''chaos'', mk_param 0.2),
           (''speed'', mk_param 1.0), (''scale'', mk_param 1.0),
           (''hue'', mk_param 200), (''intensity'', mk_param 0.9), (''saturation'', mk_param 0.6)]"
    using nan_accumulate[of "Fin 0"] by simp
  have k: "map_of (parameters s1) ''rot4dXW'' = Some ?p" by (simp add: ps)
  have nan: "base ?p + reactive ?p = NaN" by (simp add: mk_param_def)
  have und: "js_get constraints ''rot4dXW'' = Undefined"
    by (simp add: js_get_def constraints_def object_prototype_keys_def)
  have hue: "list_all (\<lambda>(k', q). k' \<noteq> ''hue''
                    \<or> base q + reactive q = NaN \<or> (\<exists>a. base q + reactive q = Fin a \<and> \<bar>a\<bar> \<le> 2 ^ 62))
          (parameters s1)"
    by (simp add: ps mk_param_def)
  then have hue': "\<forall>(k', q) \<in> set (parameters s1). k' = ''hue'' \<longrightarrow>
              base q + reactive q = NaN \<or> (\<exists>a. base q + reactive q = Fin a \<and> \<bar>a\<bar> \<le> 2 ^ 62)"
    unfolding list_all_iff by blast
  note main = nonfinite_propagates[OF k]
  from main hue' obtain s2 where s2: "applyParameterRelationships s1 = Some s2" by blast
  from main s2 nan obtain w where
    "map_of (parameters (smoothParameters s2)) ''rot4dXW'' = Some (?p\<lparr>value_p := NaN, smoothed := w\<rparr>)"
    "map_of (finalParameters (smoothParameters s2)) ''rot4dXW'' = Some w"
    "\<not> isFinite w" "w = smoothed ?p + (NaN - smoothed ?p) * smoothingFactor (smoothingFactors s1) ''rot4dXW''"
    by (auto simp: isFinite_def)
  moreover from this(4) have "w = NaN" by (simp add: mk_param_def minus_jsnum_def)
  ultimately show ?thesis using acc k nan und hue s2 by (auto simp: isFinite_def)
qed

text \<open>
  Claim C8 at a failing input. For hue and the raw value \<open>+Infinity\<close> the second wrap loop
  subtracts the width from infinity for ever, and for \<open>-Infinity\<close> the first loop adds it for
  ever: \<open>constrainParameter\<close> has no result. A frame that reaches it does not complete:
  after \<^verbatim>\<open>setBaseParameter('hue', Infinity)\<close> the next frame never returns.
\<close>

theorem hue_infinite_diverges:
  "constrainParameter ''hue'' PInf = None
   \<and> constrainParameter ''hue'' NInf = None
   \<and> processReactivity
        (start (setBaseParameter (setBreathingEnabled (constructor (Fin 0)) False) ''hue'' PInf))
        idle_frame = None"
proof -
  have 1: "wrap_below hue_c PInf = Some PInf" by (subst wrap_below.simps) simp
  note 2 = wrap_above_PInf_diverges
  have c: "processReactivity
        (start (setBaseParameter (setBreathingEnabled (constructor (Fin 0)) False) ''hue'' PInf))
        idle_frame = None"
    by (simp add: processReactivity_def accumulateReactive_def processAudioReactivity_def
        processTouchReactivity_def processGyroscopeReactivity_def applyBreathingPatterns_def
        idle_frame_def seq_def resetReactive_def start_def setBaseParameter_def setBreathingEnabled_def
        constructor_def initial_parameters_def mk_param_def applyParameterRelationships_def
        constrainParameter_def js_get_def constraints_def Math_max_def Math_min_def 1 2)
  from constrain_hue_PInf constrain_hue_NInf c show ?thesis by simp
qed

section \<open>Properties of the momentum decay\<close>

lemma released_okD:
  assumes "released_ok s" "(axis, v) \<in> set (rotations_tg s)"
  shows "\<exists>r e. v = Fin r \<and> map_of (rotationEffects s) axis = Some e
           \<and> dampening e = Fin (factor_of s axis) \<and> 0 < factor_of s axis \<and> factor_of s axis < 1"
proof -
  from assms have fin: "isFinite v"
    and eff: "case map_of (rotationEffects s) axis of None \<Rightarrow> False
              | Some e \<Rightarrow> Fin 0 < dampening e \<and> dampening e < Fin 1"
    by (auto simp: released_ok_def list_all_iff)
  from fin obtain r where r: "v = Fin r" by (cases v) (simp_all add: isFinite_def)
  from eff obtain e where e: "map_of (rotationEffects s) axis = Some e"
    "Fin 0 < dampening e" "dampening e < Fin 1"
    by (cases "map_of (rotationEffects s) axis") simp_all
  from e(2,3) obtain d where d: "dampening e = Fin d" "0 < d" "d < 1"
    by (cases "dampening e") simp_all
  with e(1) have "factor_of s axis = d" by (simp add: factor_of_def)
  with r e(1) d show ?thesis by simp
qed

lemma dampenAll_released:
  assumes "\<forall>(axis, v) \<in> set rs. \<exists>r e. v = Fin r \<and> map_of effs axis = Some e \<and> dampening e = Fin (f axis)"
  shows "dampenAll effs rs = Inr (map (\<lambda>(axis, v). (axis, Fin (fin_val v * f axis))) rs)"
  using assms
proof (induction rs)
  case Nil
  show ?case by simp
next
  case (Cons a rs)
  obtain axis v where a: "a = (axis, v)" by (cases a)
  from Cons.prems a obtain r e where
    v: "v = Fin r" "map_of effs axis = Some e" "dampening e = Fin (f axis)" by auto
  from Cons.prems have "\<forall>(axis, v) \<in> set rs. \<exists>r e. v = Fin r \<and> map_of effs axis = Some e \<and> dampening e = Fin (f axis)"
    by simp
  from Cons.IH[OF this] v show ?case by (simp add: a seq_def js_get_def)
qed

lemma totalRotation_fin_aux:
  assumes "\<forall>(axis, v) \<in> set rs. \<exists>r. v = Fin r"
  shows "foldl (\<lambda>sum (axis, val). sum + \<bar>val\<bar>) (Fin acc) rs = Fin (acc + magnitude rs)"
  using assms
proof (induction rs arbitrary: acc)
  case Nil
  show ?case by (simp add: magnitude_def)
next
  case (Cons a rs)
  obtain axis v where a: "a = (axis, v)" by (cases a)
  from Cons.prems a obtain r where v: "v = Fin r" by auto
  from Cons.prems have "\<forall>(axis, v) \<in> set rs. \<exists>r. v = Fin r" by simp
  from Cons.IH[OF this, of "acc + \<bar>r\<bar>"] show ?case
    by (simp add: a v magnitude_def add.assoc)
qed

lemma totalRotation_fin:
  assumes "\<forall>(axis, v) \<in> set rs. \<exists>r. v = Fin r"
  shows "totalRotation rs = Fin (magnitude rs)"
  using totalRotation_fin_aux[OF assms, of 0] by (simp add: totalRotation_def)

lemma released_ok_dampened:
  assumes "released_ok s"
  shows "released_ok (dampened s)"
  using assms by (auto simp: released_ok_def dampened_def list_all_iff isFinite_def)

lemma dampened_fields:
  "rotationEffects (dampened s) = rotationEffects s" "isActive_tg (dampened s) = isActive_tg s"
  "factor_of (dampened s) = factor_of s"
  "map fst (rotations_tg (dampened s)) = map fst (rotations_tg s)"
  by (simp_all add: dampened_def factor_of_def fun_eq_iff case_prod_unfold comp_def)

lemma dampening_frame_released:
  assumes "released_ok s"
  shows "dampening_frame s = Inr (dampened s, 0.001 < magnitude (rotations_tg (dampened s)))"
proof -
  have 1: "\<forall>(axis, v) \<in> set (rotations_tg s). \<exists>r e. v = Fin r \<and> map_of (rotationEffects s) axis = Some e
       \<and> dampening e = Fin (factor_of s axis)"
    using released_okD[OF assms] by blast
  have 2: "\<forall>(axis, v) \<in> set (rotations_tg (dampened s)). \<exists>r. v = Fin r"
    by (auto simp: dampened_def)
  have 3: "isActive_tg s" using assms by (simp add: released_ok_def)
  show ?thesis
    unfolding dampening_frame_def dampenAll_released[of "rotations_tg s" "rotationEffects s" "factor_of s", OF 1]
    using totalRotation_fin[OF 2] 3 by (simp add: seq_def dampened_def)
qed

lemma iterate_frames_released:
  assumes "released_ok s"
  shows "iterate_frames n s = Inr ((dampened ^^ n) s)"
  using assms
proof (induction n arbitrary: s)
  case 0
  show ?case by simp
next
  case (Suc n)
  from Suc.IH[OF released_ok_dampened[OF Suc.prems]]
  show ?case by (simp add: dampening_frame_released[OF Suc.prems] seq_def funpow_swap1)
qed

lemma released_ok_funpow:
  assumes "released_ok s"
  shows "released_ok ((dampened ^^ n) s)"
  by (induction n) (simp_all add: assms released_ok_dampened)


lemma factor_bound:
  assumes "\<forall>a \<in> set as. 0 < f a \<and> f a < (1::real)"
  shows "\<exists>D. 0 < D \<and> D < 1 \<and> (\<forall>a \<in> set as. f a \<le> D)"
  using assms
proof (induction as)
  case Nil
  show ?case by (intro exI[of _ "1/2"]) simp
next
  case (Cons a as)
  then obtain D where D: "0 < D" "D < 1" "\<forall>a \<in> set as. f a \<le> D" by auto
  from Cons.prems have "0 < f a" "f a < 1" by simp_all
  with D show ?case by (intro exI[of _ "max D (f a)"]) auto
qed

lemma magnitude_dampened_le:
  assumes "\<forall>(axis, v) \<in> set rs. f axis \<le> D" "\<forall>(axis, v) \<in> set rs. 0 \<le> f axis"
  shows "magnitude (map (\<lambda>(axis, v). (axis, Fin (fin_val v * f axis))) rs) \<le> D * magnitude rs"
  using assms
proof (induction rs)
  case Nil
  show ?case by (simp add: magnitude_def)
next
  case (Cons a rs)
  obtain axis v where a: "a = (axis, v)" by (cases a)
  from Cons.prems a have f: "f axis \<le> D" "0 \<le> f axis" by auto
  have "\<bar>fin_val v * f axis\<bar> = \<bar>fin_val v\<bar> * f axis" using f(2) by (simp add: abs_mult)
  also have "\<dots> \<le> \<bar>fin_val v\<bar> * D" using f(1) by (simp add: mult_left_mono)
  finally have 1: "\<bar>fin_val v * f axis\<bar> \<le> D * \<bar>fin_val v\<bar>" by (simp add: mult.commute)
  from Cons.prems have "\<forall>(axis, v) \<in> set rs. f axis \<le> D" "\<forall>(axis, v) \<in> set rs. 0 \<le> f axis" by simp_all
  from Cons.IH[OF this] 1 show ?case by (simp add: a magnitude_def algebra_simps)
qed

lemma magnitude_nonneg: "0 \<le> magnitude rs"
  by (induction rs) (auto simp: magnitude_def)

lemma magnitude_funpow_le:
  assumes ok: "released_ok s"
    and D: "\<forall>a \<in> set (map fst (rotations_tg s)). factor_of s a \<le> D" "0 \<le> D"
  shows "magnitude (rotations_tg ((dampened ^^ n) s)) \<le> D ^ n * magnitude (rotations_tg s)"
proof (induction n)
  case 0
  show ?case by simp
next
  case (Suc n)
  let ?t = "(dampened ^^ n) s"
  have okt: "released_ok ?t" by (rule released_ok_funpow[OF ok])
  have keys: "map fst (rotations_tg ?t) = map fst (rotations_tg s)"
    by (induction n) (simp_all add: dampened_fields)
  have fac: "factor_of ?t = factor_of s"
    by (induction n) (simp_all add: dampened_fields)
  have b1: "\<forall>(axis, v) \<in> set (rotations_tg ?t). factor_of ?t axis \<le> D"
  proof -
    have "\<forall>a \<in> set (map fst (rotations_tg ?t)). factor_of ?t a \<le> D"
      unfolding keys fac by (rule D(1))
    then show ?thesis by force
  qed
  have b2: "\<forall>(axis, v) \<in> set (rotations_tg ?t). 0 \<le> factor_of ?t axis"
    using released_okD[OF okt] by fastforce
  have "magnitude (rotations_tg (dampened ?t)) \<le> D * magnitude (rotations_tg ?t)"
    using magnitude_dampened_le[OF b1 b2] by (simp add: dampened_def)
  also have "\<dots> \<le> D * (D ^ n * magnitude (rotations_tg s))"
    using Suc D(2) by (simp add: mult_left_mono)
  finally show ?case by (simp add: mult.assoc)
qed

lemma magnitude_eventually_small:
  assumes ok: "released_ok s"
  shows "\<exists>k. magnitude (rotations_tg ((dampened ^^ Suc k) s)) \<le> 0.001"
proof -
  have "\<forall>a \<in> set (map fst (rotations_tg s)). 0 < factor_of s a \<and> factor_of s a < 1"
    using released_okD[OF ok] by fastforce
  from factor_bound[OF this] obtain D where
    D: "0 < D" "D < 1" "\<forall>a \<in> set (map fst (rotations_tg s)). factor_of s a \<le> D" by blast
  let ?T = "magnitude (rotations_tg s)"
  have "0 < 0.001 / (?T + 1)" using magnitude_nonneg[of "rotations_tg s"] by simp
  from real_arch_pow_inv[OF this D(2)] obtain n where n: "D ^ n < 0.001 / (?T + 1)" ..
  have T1: "0 < ?T + 1" using magnitude_nonneg[of "rotations_tg s"] by simp
  from n have "D ^ n * (?T + 1) < 0.001" by (simp only: pos_less_divide_eq[OF T1])
  moreover have "D ^ n * ?T \<le> D ^ n * (?T + 1)" using D(1) by (simp add: mult_left_mono)
  ultimately have small: "D ^ n * ?T \<le> 0.001" by linarith
  have "D ^ Suc n * ?T \<le> D ^ n * ?T"
  proof -
    have "D ^ Suc n \<le> D ^ n" using D(1,2) by (simp add: mult_left_le_one_le)
    then show ?thesis using magnitude_nonneg[of "rotations_tg s"] by (rule mult_right_mono)
  qed
  with small magnitude_funpow_le[OF ok D(3), of "Suc n"] D(1)
  have "magnitude (rotations_tg ((dampened ^^ Suc n) s)) \<le> 0.001" by linarith
  then show ?thesis ..
qed

lemma applyTouchMomentum_released:
  assumes ok: "released_ok s"
    and small: "magnitude (rotations_tg ((dampened ^^ Suc k) s)) \<le> 0.001"
  shows "\<exists>N \<le> k. applyTouchMomentum s = Some (Inr ((dampened ^^ Suc N) s))
           \<and> magnitude (rotations_tg ((dampened ^^ Suc N) s)) \<le> 0.001
           \<and> (\<forall>n < N. 0.001 < magnitude (rotations_tg ((dampened ^^ Suc n) s)))"
  using assms
proof (induction k arbitrary: s)
  case 0
  then have sm: "magnitude (rotations_tg (dampened s)) \<le> 0.001" by simp
  then have "applyTouchMomentum s = Some (Inr (dampened s))"
    by (subst applyTouchMomentum.simps) (simp add: dampening_frame_released[OF "0.prems"(1)])
  with sm show ?case by simp
next
  case (Suc k)
  show ?case
  proof (cases "magnitude (rotations_tg (dampened s)) \<le> 0.001")
    case True
    then have "applyTouchMomentum s = Some (Inr (dampened s))"
      by (subst applyTouchMomentum.simps) (simp add: dampening_frame_released[OF Suc.prems(1)])
    with True show ?thesis by (intro exI[of _ 0]) simp
  next
    case False
    then have unfold: "applyTouchMomentum s = applyTouchMomentum (dampened s)"
      by (subst applyTouchMomentum.simps) (simp add: dampening_frame_released[OF Suc.prems(1)])
    have sm: "magnitude (rotations_tg ((dampened ^^ Suc k) (dampened s))) \<le> 0.001"
      using Suc.prems(2) by (simp add: funpow_swap1)
    from Suc.IH[OF released_ok_dampened[OF Suc.prems(1)] sm] obtain N where
      N: "N \<le> k" "applyTouchMomentum (dampened s) = Some (Inr ((dampened ^^ Suc N) (dampened s)))"
        "magnitude (rotations_tg ((dampened ^^ Suc N) (dampened s))) \<le> 0.001"
        "\<forall>n < N. 0.001 < magnitude (rotations_tg ((dampened ^^ Suc n) (dampened s)))"
      by blast
    have shift: "(dampened ^^ Suc m) (dampened s) = (dampened ^^ Suc (Suc m)) s" for m
      by (simp add: funpow_swap1)
    have all: "\<forall>n < Suc N. 0.001 < magnitude (rotations_tg ((dampened ^^ Suc n) s))"
    proof (intro allI impI)
      fix n assume "n < Suc N"
      show "0.001 < magnitude (rotations_tg ((dampened ^^ Suc n) s))"
      proof (cases n)
        case 0
        with False show ?thesis by simp
      next
        case (Suc m)
        with \<open>n < Suc N\<close> have "m < N" by simp
        with N(4) have "0.001 < magnitude (rotations_tg ((dampened ^^ Suc m) (dampened s)))" by blast
        then show ?thesis unfolding shift Suc .
      qed
    qed
    from N(1,2,3) unfold all show ?thesis
      unfolding shift by (intro exI[of _ "Suc N"]) simp
  qed
qed

lemma dampened_axis:
  assumes ok: "released_ok s" and r: "map_of (rotations_tg s) axis = Some (Fin r)" "r \<noteq> 0"
  shows "\<exists>r'. map_of (rotations_tg (dampened s)) axis = Some (Fin r') \<and> r' \<noteq> 0 \<and> \<bar>r'\<bar> < \<bar>r\<bar>"
proof -
  from r(1) have "(axis, Fin r) \<in> set (rotations_tg s)" by (rule map_of_SomeD)
  from released_okD[OF ok this] have f: "0 < factor_of s axis" "factor_of s axis < 1" by auto
  have "map_of (rotations_tg (dampened s)) axis = Some (Fin (r * factor_of s axis))"
    unfolding dampened_def by (simp add: map_of_map_values r(1))
  moreover have "r * factor_of s axis \<noteq> 0" using f(1) r(2) by simp
  moreover have "\<bar>r * factor_of s axis\<bar> < \<bar>r\<bar>"
  proof -
    have "\<bar>r * factor_of s axis\<bar> = \<bar>r\<bar> * factor_of s axis" using f(1) by (simp add: abs_mult)
    also have "\<dots> < \<bar>r\<bar> * 1" using f(2) r(2) by (intro mult_strict_left_mono) simp_all
    finally show ?thesis by simp
  qed
  ultimately show ?thesis by blast
qed

lemma dampened_funpow_axis:
  assumes ok: "released_ok s" and r: "map_of (rotations_tg s) axis = Some (Fin r)" "r \<noteq> 0"
  shows "\<exists>r'. map_of (rotations_tg ((dampened ^^ n) s)) axis = Some (Fin r') \<and> r' \<noteq> 0"
proof (induction n)
  case 0
  with r show ?case by simp
next
  case (Suc n)
  then obtain r1 where r1: "map_of (rotations_tg ((dampened ^^ n) s)) axis = Some (Fin r1)" "r1 \<noteq> 0"
    by blast
  from dampened_axis[OF released_ok_funpow[OF ok] r1] show ?case by auto
qed

lemmas tg_defs = constructor_tg_def initial_rotationEffects_def dampening_frame_def totalRotation_def seq_def
  js_get_def

text \<open>Claim C4 fails in its last part: released with 0.0011 on one axis, the controller runs the
  closure twice and stops with 0.00099275 on that axis. Nothing sets the rotation to zero.\<close>

theorem momentum_residual_not_zero:
  "applyTouchMomentum (constructor_tg\<lparr>isActive_tg := True,
        rotations_tg := [(''rot4dXW'', Fin 0.0011), (''rot4dYW'', Fin 0), (''rot4dZW'', Fin 0),
                         (''rot4dXY'', Fin 0), (''rot4dXZ'', Fin 0), (''rot4dYZ'', Fin 0)]\<rparr>)
     = Some (Inr (constructor_tg\<lparr>isActive_tg := True,
        rotations_tg := [(''rot4dXW'', Fin 0.00099275), (''rot4dYW'', Fin 0), (''rot4dZW'', Fin 0),
                         (''rot4dXY'', Fin 0), (''rot4dXZ'', Fin 0), (''rot4dYZ'', Fin 0)]\<rparr>))
   \<and> Fin 0.00099275 \<noteq> Fin 0"
  by (subst applyTouchMomentum.simps, simp add: tg_defs, subst applyTouchMomentum.simps, simp add: tg_defs)

text \<open>
  Claim C4, as the code has it. Take a running controller whose rotations are finite and whose
  dampening factors lie strictly between 0 and 1. Then \<open>applyTouchMomentum\<close> stops after a
  finite number \<open>N + 1\<close> of runs of the closure; every run strictly decreases the magnitude of
  every nonzero rotation; after each of the first \<open>N\<close> runs the sum of the magnitudes is above
  0.001 and after the last one it is not. The rotations then stay as the last run left them, and
  every axis that started nonzero is still nonzero.
\<close>

theorem momentum_decay:
  assumes "released_ok s"
  shows "\<exists>N sN. applyTouchMomentum s = Some (Inr sN) \<and> iterate_frames (Suc N) s = Inr sN
      \<and> \<not> (Fin 0.001 < totalRotation (rotations_tg sN))
      \<and> (\<forall>n \<le> N. \<exists>a b. iterate_frames n s = Inr a \<and> iterate_frames (Suc n) s = Inr b
            \<and> (n < N \<longrightarrow> Fin 0.001 < totalRotation (rotations_tg b))
            \<and> (\<forall>axis r. map_of (rotations_tg a) axis = Some (Fin r) \<and> r \<noteq> 0 \<longrightarrow>
                 (\<exists>r'. map_of (rotations_tg b) axis = Some (Fin r') \<and> r' \<noteq> 0 \<and> \<bar>r'\<bar> < \<bar>r\<bar>)))
      \<and> (\<forall>axis r. map_of (rotations_tg s) axis = Some (Fin r) \<and> r \<noteq> 0 \<longrightarrow>
            (\<exists>r'. map_of (rotations_tg sN) axis = Some (Fin r') \<and> r' \<noteq> 0))"
proof -
  from magnitude_eventually_small[OF assms] obtain k where
    "magnitude (rotations_tg ((dampened ^^ Suc k) s)) \<le> 0.001" ..
  from applyTouchMomentum_released[OF assms this] obtain N where
    N: "applyTouchMomentum s = Some (Inr ((dampened ^^ Suc N) s))"
       "magnitude (rotations_tg ((dampened ^^ Suc N) s)) \<le> 0.001"
       "\<forall>n < N. 0.001 < magnitude (rotations_tg ((dampened ^^ Suc n) s))"
    by blast
  let ?sN = "(dampened ^^ Suc N) s"
  have total: "totalRotation (rotations_tg ((dampened ^^ n) s)) = Fin (magnitude (rotations_tg ((dampened ^^ n) s)))" for n
  proof (rule totalRotation_fin)
    show "\<forall>(axis, v) \<in> set (rotations_tg ((dampened ^^ n) s)). \<exists>r. v = Fin r"
      using released_okD[OF released_ok_funpow[OF assms, of n]] by fastforce
  qed
  have 1: "iterate_frames (Suc N) s = Inr ?sN" by (rule iterate_frames_released[OF assms])
  have 2: "\<not> (Fin 0.001 < totalRotation (rotations_tg ?sN))"
    unfolding total using N(2) by simp
  have 3: "\<exists>a b. iterate_frames n s = Inr a \<and> iterate_frames (Suc n) s = Inr b
            \<and> (n < N \<longrightarrow> Fin 0.001 < totalRotation (rotations_tg b))
            \<and> (\<forall>axis r. map_of (rotations_tg a) axis = Some (Fin r) \<and> r \<noteq> 0 \<longrightarrow>
                 (\<exists>r'. map_of (rotations_tg b) axis = Some (Fin r') \<and> r' \<noteq> 0 \<and> \<bar>r'\<bar> < \<bar>r\<bar>))" for n
  proof -
    let ?a = "(dampened ^^ n) s" and ?b = "(dampened ^^ Suc n) s"
    have a: "iterate_frames n s = Inr ?a" by (rule iterate_frames_released[OF assms])
    have b: "iterate_frames (Suc n) s = Inr ?b" by (rule iterate_frames_released[OF assms])
    have c: "n < N \<longrightarrow> Fin 0.001 < totalRotation (rotations_tg ?b)"
      unfolding total using N(3) by simp
    have d: "\<forall>axis r. map_of (rotations_tg ?a) axis = Some (Fin r) \<and> r \<noteq> 0 \<longrightarrow>
                 (\<exists>r'. map_of (rotations_tg ?b) axis = Some (Fin r') \<and> r' \<noteq> 0 \<and> \<bar>r'\<bar> < \<bar>r\<bar>)"
      using dampened_axis[OF released_ok_funpow[OF assms, of n]] by simp
    from a b c d show ?thesis by blast
  qed
  have 4: "\<forall>axis r. map_of (rotations_tg s) axis = Some (Fin r) \<and> r \<noteq> 0 \<longrightarrow>
            (\<exists>r'. map_of (rotations_tg ?sN) axis = Some (Fin r') \<and> r' \<noteq> 0)"
    using dampened_funpow_axis[OF assms, of _ _ "Suc N"] by blast
  from N(1) 1 2 3 4 show ?thesis by blast
qed

theorem momentum_decay_witness:
  "released_ok (constructor_tg\<lparr>isActive_tg := True,
        rotations_tg := [(''rot4dXW'', Fin 0.001), (''rot4dYW'', Fin 0), (''rot4dZW'', Fin 0),
                         (''rot4dXY'', Fin 0), (''rot4dXZ'', Fin 0), (''rot4dYZ'', Fin 0)]\<rparr>)
   \<and> applyTouchMomentum (constructor_tg\<lparr>isActive_tg := True,
        rotations_tg := [(''rot4dXW'', Fin 0.001), (''rot4dYW'', Fin 0), (''rot4dZW'', Fin 0),
                         (''rot4dXY'', Fin 0), (''rot4dXZ'', Fin 0), (''rot4dYZ'', Fin 0)]\<rparr>)
     = Some (Inr (constructor_tg\<lparr>isActive_tg := True,
        rotations_tg := [(''rot4dXW'', Fin 0.00095), (''rot4dYW'', Fin 0), (''rot4dZW'', Fin 0),
                         (''rot4dXY'', Fin 0), (''rot4dXZ'', Fin 0), (''rot4dYZ'', Fin 0)]\<rparr>))"
proof -
  let ?S = "constructor_tg\<lparr>isActive_tg := True,
        rotations_tg := [(''rot4dXW'', Fin 0.001), (''rot4dYW'', Fin 0), (''rot4dZW'', Fin 0),
                         (''rot4dXY'', Fin 0), (''rot4dXZ'', Fin 0), (''rot4dYZ'', Fin 0)]\<rparr>"
  have ok: "released_ok ?S"
    by (simp add: released_ok_def constructor_tg_def initial_rotationEffects_def isFinite_def)
  have run: "applyTouchMomentum ?S = Some (Inr (constructor_tg\<lparr>isActive_tg := True,
        rotations_tg := [(''rot4dXW'', Fin 0.00095), (''rot4dYW'', Fin 0), (''rot4dZW'', Fin 0),
                         (''rot4dXY'', Fin 0), (''rot4dXZ'', Fin 0), (''rot4dYZ'', Fin 0)]\<rparr>))"
    by (subst applyTouchMomentum.simps) (simp add: tg_defs)
  from momentum_decay[OF ok] ok run show ?thesis by simp
qed

end
